theory Spec2Isabelle
  imports Complex_Main
begin

section \<open>Tokens and syntax trees\<close>

text \<open>
  Modelled from the spec: the token kinds of \<^verbatim>\<open>token.ts\<close>, which is not among the
  sources. The constructors are exactly the members of \<^verbatim>\<open>TK\<close> that \<^verbatim>\<open>parser.ts\<close>
  names; \<^verbatim>\<open>TK.X\<close> is written \<open>TK_X\<close>.
\<close>

datatype TokenKind =
    TK_FUNC | TK_LET | TK_IF | TK_ELSE | TK_WHILE
  | TK_LBRACE | TK_RBRACE | TK_LPAREN | TK_RPAREN | TK_COMMA | TK_SEMICOLON
  | TK_IDENT | TK_NUMBER | TK_STRING
  | TK_ASSIGN | TK_PLUS_ASSIGN | TK_MINUS_ASSIGN | TK_STAR_ASSIGN | TK_SLASH_ASSIGN
  | TK_OR | TK_AND | TK_EQUAL | TK_NOTEQ | TK_LT | TK_LTE | TK_GT | TK_GTE
  | TK_PLUS | TK_MINUS | TK_STAR | TK_SLASH | TK_NOT | TK_BANG
  | TK_EOF

text \<open>
  Modelled from the spec: a token's optional decoded literal (a number or a string).
  Numbers are kept exact (rationals); the host's floating point is not modelled.
\<close>

datatype literal = NumberLit rat | StringLit string

record Token =
  kind :: TokenKind
  lexeme :: string
  literal :: "literal option"

text \<open>
  The argument \<^verbatim>\<open>t.literal ?? t.lexeme\<close> of the host conversions \<^verbatim>\<open>Number(...)\<close> and
  \<^verbatim>\<open>String(...)\<close>. The conversions themselves belong to the host language; a literal
  node keeps the value they are applied to.
\<close>

datatype hostarg = OfLiteral literal | OfLexeme string

definition literal_or_lexeme :: "Token \<Rightarrow> hostarg" where
  "literal_or_lexeme t = (case literal t of Some l \<Rightarrow> OfLiteral l | None \<Rightarrow> OfLexeme (lexeme t))"

datatype UnaryOp = U_MINUS | U_NOT

datatype BinaryOp =
    B_OR | B_AND | B_EQUAL | B_NOTEQ | B_LT | B_LTE | B_GT | B_GTE
  | B_PLUS | B_MINUS | B_STAR | B_SLASH

datatype AssignOp = A_ASSIGN | A_PLUS_ASSIGN | A_MINUS_ASSIGN | A_STAR_ASSIGN | A_SLASH_ASSIGN

datatype Expr =
    Num hostarg
  | Str hostarg
  | Ident string
  | Unary UnaryOp Expr
  | Binary BinaryOp Expr Expr
  | Group Expr
  | Call Expr "Expr list"

datatype Stmt =
    SLet string "Expr option"
  | SFn string "string list" "Stmt list"
  | SIf Expr Stmt "Stmt option"
  | SWhile Expr Stmt
  | SBlock "Stmt list"
  | SAssign string AssignOp Expr
  | SExprStmt Expr

section \<open>Parser state and outcomes\<close>

record ParseError =
  token :: Token
  message :: string

text \<open>
  The mutable fields of the class \<^verbatim>\<open>Parser\<close>. The token array is \<^verbatim>\<open>readonly\<close> and is
  passed to every operation as the argument \<open>ts\<close>.
\<close>

record Parser =
  i :: nat
  errors :: "ParseError list"

text \<open>
  An operation returns normally (\<open>Ok\<close>), throws a \<^verbatim>\<open>ParseError\<close> (\<open>Err\<close>) or throws a
  plain \<^verbatim>\<open>Error\<close> (\<open>Fatal\<close>); the fields keep what was assigned before the throw.
  \<open>OutOfFuel\<close> is the value of a recursion that was cut off by its bound.
\<close>

datatype 'a result =
    Ok 'a Parser
  | Err ParseError Parser
  | Fatal string Parser
  | OutOfFuel

definition bind :: "'a result \<Rightarrow> ('a \<Rightarrow> Parser \<Rightarrow> 'b result) \<Rightarrow> 'b result" where
  "bind r f = (case r of
       Ok v p \<Rightarrow> f v p
     | Err e p \<Rightarrow> Err e p
     | Fatal m p \<Rightarrow> Fatal m p
     | OutOfFuel \<Rightarrow> OutOfFuel)"

lemma bind_cong [fundef_cong]:
  "r = r' \<Longrightarrow> (\<And>v p. r' = Ok v p \<Longrightarrow> f v p = f' v p) \<Longrightarrow> bind r f = bind r' f'"
  by (auto simp: bind_def split: result.splits)

lemma bind_simps [simp]:
  "bind (Ok v p) f = f v p"
  "bind (Err e p) f = Err e p"
  "bind (Fatal m p) f = Fatal m p"
  "bind OutOfFuel f = OutOfFuel"
  by (simp_all add: bind_def)

section \<open>Helpers\<close>

definition error :: "Token \<Rightarrow> string \<Rightarrow> ParseError" where
  "error tok msg = \<lparr>token = tok, message = msg\<rparr>"

definition current :: "Token list \<Rightarrow> Parser \<Rightarrow> Token result" where
  "current ts p =
     (if i p < length ts then Ok (ts ! i p) p
      else Fatal ''Parser invariant violated: missing EOF token'' p)"

definition previous :: "Token list \<Rightarrow> Parser \<Rightarrow> Token result" where
  "previous ts p =
     (if 0 < i p \<and> i p - 1 < length ts then Ok (ts ! (i p - 1)) p
      else Fatal ''Parser invariant violated: previous() before start'' p)"

definition peek :: "Token list \<Rightarrow> Parser \<Rightarrow> Token option" where
  "peek ts p = (if i p + 1 < length ts then Some (ts ! (i p + 1)) else None)"

definition isAtEnd :: "Token list \<Rightarrow> Parser \<Rightarrow> bool result" where
  "isAtEnd ts p = bind (current ts p) (\<lambda>tok p. Ok (kind tok = TK_EOF) p)"

definition advance :: "Token list \<Rightarrow> Parser \<Rightarrow> Token result" where
  "advance ts p =
     bind (isAtEnd ts p) (\<lambda>e p. previous ts (if \<not> e then p\<lparr>i := i p + 1\<rparr> else p))"

definition check :: "Token list \<Rightarrow> TokenKind \<Rightarrow> Parser \<Rightarrow> bool result" where
  "check ts k p =
     bind (isAtEnd ts p) (\<lambda>e p.
       if e then Ok False p
       else bind (current ts p) (\<lambda>tok p. Ok (kind tok = k) p))"

fun match :: "Token list \<Rightarrow> TokenKind list \<Rightarrow> Parser \<Rightarrow> bool result" where
  "match ts [] p = Ok False p"
| "match ts (k # ks) p =
     bind (check ts k p) (\<lambda>c p.
       if c then bind (advance ts p) (\<lambda>_ p. Ok True p)
       else match ts ks p)"

definition consume :: "Token list \<Rightarrow> TokenKind \<Rightarrow> string \<Rightarrow> Parser \<Rightarrow> Token result" where
  "consume ts k msg p =
     bind (check ts k p) (\<lambda>c p.
       if c then advance ts p
       else bind (current ts p) (\<lambda>tok p. Err (error tok msg) p))"

section \<open>Expressions\<close>

text \<open>
  The precedence ladder. Every \<^verbatim>\<open>while\<close> loop of the source is the function named
  \<open>_loop\<close> after its method; the bound \<open>n\<close> is lowered where a token has just been consumed.
  The method \<^verbatim>\<open>term\<close> is \<open>term'\<close>, since its name is a keyword of Isabelle; for the
  same reason the method \<^verbatim>\<open>declaration\<close> below is \<open>declaration'\<close>.
\<close>

function expression :: "nat \<Rightarrow> Token list \<Rightarrow> Parser \<Rightarrow> Expr result"
  and logicOr :: "nat \<Rightarrow> Token list \<Rightarrow> Parser \<Rightarrow> Expr result"
  and logicOr_loop :: "nat \<Rightarrow> Token list \<Rightarrow> Expr \<Rightarrow> Parser \<Rightarrow> Expr result"
  and logicAnd :: "nat \<Rightarrow> Token list \<Rightarrow> Parser \<Rightarrow> Expr result"
  and logicAnd_loop :: "nat \<Rightarrow> Token list \<Rightarrow> Expr \<Rightarrow> Parser \<Rightarrow> Expr result"
  and equality :: "nat \<Rightarrow> Token list \<Rightarrow> Parser \<Rightarrow> Expr result"
  and equality_loop :: "nat \<Rightarrow> Token list \<Rightarrow> Expr \<Rightarrow> Parser \<Rightarrow> Expr result"
  and comparison :: "nat \<Rightarrow> Token list \<Rightarrow> Parser \<Rightarrow> Expr result"
  and comparison_loop :: "nat \<Rightarrow> Token list \<Rightarrow> Expr \<Rightarrow> Parser \<Rightarrow> Expr result"
  and term' :: "nat \<Rightarrow> Token list \<Rightarrow> Parser \<Rightarrow> Expr result"
  and term_loop :: "nat \<Rightarrow> Token list \<Rightarrow> Expr \<Rightarrow> Parser \<Rightarrow> Expr result"
  and factor :: "nat \<Rightarrow> Token list \<Rightarrow> Parser \<Rightarrow> Expr result"
  and factor_loop :: "nat \<Rightarrow> Token list \<Rightarrow> Expr \<Rightarrow> Parser \<Rightarrow> Expr result"
  and unary :: "nat \<Rightarrow> Token list \<Rightarrow> Parser \<Rightarrow> Expr result"
  and call :: "nat \<Rightarrow> Token list \<Rightarrow> Parser \<Rightarrow> Expr result"
  and call_loop :: "nat \<Rightarrow> Token list \<Rightarrow> Expr \<Rightarrow> Parser \<Rightarrow> Expr result"
  and arguments :: "nat \<Rightarrow> Token list \<Rightarrow> Expr list \<Rightarrow> Parser \<Rightarrow> Expr list result"
  and primary :: "nat \<Rightarrow> Token list \<Rightarrow> Parser \<Rightarrow> Expr result"
where
  "expression n ts p = logicOr n ts p"
| "logicOr n ts p = bind (logicAnd n ts p) (\<lambda>expr p. logicOr_loop n ts expr p)"
| "logicOr_loop n ts expr p =
     bind (match ts [TK_OR] p) (\<lambda>m p.
       if m then
         (case n of 0 \<Rightarrow> OutOfFuel | Suc n' \<Rightarrow>
            bind (logicAnd n' ts p) (\<lambda>rhs p.
              logicOr_loop n' ts (Binary B_OR expr rhs) p))
       else Ok expr p)"
| "logicAnd n ts p = bind (equality n ts p) (\<lambda>expr p. logicAnd_loop n ts expr p)"
| "logicAnd_loop n ts expr p =
     bind (match ts [TK_AND] p) (\<lambda>m p.
       if m then
         (case n of 0 \<Rightarrow> OutOfFuel | Suc n' \<Rightarrow>
            bind (equality n' ts p) (\<lambda>rhs p.
              logicAnd_loop n' ts (Binary B_AND expr rhs) p))
       else Ok expr p)"
| "equality n ts p = bind (comparison n ts p) (\<lambda>expr p. equality_loop n ts expr p)"
| "equality_loop n ts expr p =
     bind (match ts [TK_EQUAL, TK_NOTEQ] p) (\<lambda>m p.
       if m then
         bind (previous ts p) (\<lambda>opTok p.
           case n of 0 \<Rightarrow> OutOfFuel | Suc n' \<Rightarrow>
             bind (comparison n' ts p) (\<lambda>rhs p.
               equality_loop n' ts
                 (Binary (if kind opTok = TK_EQUAL then B_EQUAL else B_NOTEQ) expr rhs) p))
       else Ok expr p)"
| "comparison n ts p = bind (term' n ts p) (\<lambda>expr p. comparison_loop n ts expr p)"
| "comparison_loop n ts expr p =
     bind (match ts [TK_LT, TK_LTE, TK_GT, TK_GTE] p) (\<lambda>m p.
       if m then
         bind (previous ts p) (\<lambda>opTok p.
           case n of 0 \<Rightarrow> OutOfFuel | Suc n' \<Rightarrow>
             bind (term' n' ts p) (\<lambda>rhs p.
               comparison_loop n' ts
                 (Binary (if kind opTok = TK_LT then B_LT
                          else if kind opTok = TK_LTE then B_LTE
                          else if kind opTok = TK_GT then B_GT
                          else B_GTE) expr rhs) p))
       else Ok expr p)"
| "term' n ts p = bind (factor n ts p) (\<lambda>expr p. term_loop n ts expr p)"
| "term_loop n ts expr p =
     bind (match ts [TK_PLUS, TK_MINUS] p) (\<lambda>m p.
       if m then
         bind (previous ts p) (\<lambda>opTok p.
           case n of 0 \<Rightarrow> OutOfFuel | Suc n' \<Rightarrow>
             bind (factor n' ts p) (\<lambda>rhs p.
               term_loop n' ts
                 (Binary (if kind opTok = TK_PLUS then B_PLUS else B_MINUS) expr rhs) p))
       else Ok expr p)"
| "factor n ts p = bind (unary n ts p) (\<lambda>expr p. factor_loop n ts expr p)"
| "factor_loop n ts expr p =
     bind (match ts [TK_STAR, TK_SLASH] p) (\<lambda>m p.
       if m then
         bind (previous ts p) (\<lambda>opTok p.
           case n of 0 \<Rightarrow> OutOfFuel | Suc n' \<Rightarrow>
             bind (unary n' ts p) (\<lambda>rhs p.
               factor_loop n' ts
                 (Binary (if kind opTok = TK_STAR then B_STAR else B_SLASH) expr rhs) p))
       else Ok expr p)"
| "unary n ts p =
     bind (match ts [TK_NOT, TK_MINUS, TK_BANG] p) (\<lambda>m p.
       if m then
         bind (previous ts p) (\<lambda>opTok p.
           case n of 0 \<Rightarrow> OutOfFuel | Suc n' \<Rightarrow>
             bind (unary n' ts p) (\<lambda>rhs p.
               Ok (Unary (if kind opTok = TK_MINUS then U_MINUS else U_NOT) rhs) p))
       else call n ts p)"
| "call n ts p = bind (primary n ts p) (\<lambda>expr p. call_loop n ts expr p)"
| "call_loop n ts expr p =
     bind (match ts [TK_LPAREN] p) (\<lambda>m p.
       if m then
         (case n of 0 \<Rightarrow> OutOfFuel | Suc n' \<Rightarrow>
            bind (check ts TK_RPAREN p) (\<lambda>c p.
              bind (if \<not> c then arguments n' ts [] p else Ok [] p) (\<lambda>args p.
                bind (consume ts TK_RPAREN ''Expected ')' after arguments.'' p) (\<lambda>_ p.
                  call_loop n' ts (Call expr args) p))))
       else Ok expr p)"
| "arguments n ts args p =
     bind (expression n ts p) (\<lambda>e p.
       bind (match ts [TK_COMMA] p) (\<lambda>m p.
         if m then
           (case n of 0 \<Rightarrow> OutOfFuel | Suc n' \<Rightarrow> arguments n' ts (args @ [e]) p)
         else Ok (args @ [e]) p))"
| "primary n ts p =
     bind (match ts [TK_NUMBER] p) (\<lambda>m p.
       if m then bind (previous ts p) (\<lambda>t p. Ok (Num (literal_or_lexeme t)) p)
       else bind (match ts [TK_STRING] p) (\<lambda>m p.
         if m then bind (previous ts p) (\<lambda>t p. Ok (Str (literal_or_lexeme t)) p)
         else bind (match ts [TK_IDENT] p) (\<lambda>m p.
           if m then bind (previous ts p) (\<lambda>t p. Ok (Ident (lexeme t)) p)
           else bind (match ts [TK_LPAREN] p) (\<lambda>m p.
             if m then
               (case n of 0 \<Rightarrow> OutOfFuel | Suc n' \<Rightarrow>
                  bind (expression n' ts p) (\<lambda>expr p.
                    bind (consume ts TK_RPAREN ''Expected ')' after expression.'' p) (\<lambda>_ p.
                      Ok (Group expr) p)))
             else bind (current ts p) (\<lambda>tok p. Err (error tok ''Expected expression.'') p)))))"

  by pat_completeness auto

termination
  by size_change

section \<open>Error recovery\<close>

lemma current_Ok: "current ts p = Ok t p' \<Longrightarrow> p' = p \<and> i p < length ts \<and> t = ts ! i p"
  by (auto simp: current_def split: if_splits)

lemma isAtEnd_Ok:
  "isAtEnd ts p = Ok e p' \<Longrightarrow> p' = p \<and> i p < length ts \<and> e = (kind (ts ! i p) = TK_EOF)"
  by (auto simp: isAtEnd_def current_def split: if_splits)

lemma previous_Ok: "previous ts p = Ok t p' \<Longrightarrow> p' = p"
  by (auto simp: previous_def split: if_splits)

lemma advance_Ok:
  "advance ts p = Ok t p' \<Longrightarrow>
     i p < length ts \<and> p' = (if kind (ts ! i p) = TK_EOF then p else p\<lparr>i := i p + 1\<rparr>)"
  by (auto simp: advance_def bind_def dest!: isAtEnd_Ok previous_Ok
      split: result.splits if_splits)

lemma check_Ok:
  "check ts k p = Ok c p' \<Longrightarrow>
     p' = p \<and> i p < length ts \<and> c = (kind (ts ! i p) \<noteq> TK_EOF \<and> kind (ts ! i p) = k)"
  by (auto simp: check_def bind_def dest!: isAtEnd_Ok current_Ok
      split: result.splits if_splits)

lemma match_Ok:
  "match ts ks p = Ok m p' \<Longrightarrow> p' = (if m then p\<lparr>i := i p + 1\<rparr> else p)"
  by (induction ks) (auto simp: bind_def dest!: check_Ok advance_Ok
      split: result.splits if_splits)

lemma match_Ok_True:
  "match ts ks p = Ok True p' \<Longrightarrow> i p < length ts \<and> p' = p\<lparr>i := i p + 1\<rparr>"
  by (induction ks) (auto simp: bind_def dest!: check_Ok advance_Ok
      split: result.splits if_splits)

lemma consume_Ok:
  "consume ts k msg p = Ok t p' \<Longrightarrow> i p < length ts \<and> p' = p\<lparr>i := i p + 1\<rparr>"
  by (auto simp: consume_def bind_def dest!: check_Ok current_Ok advance_Ok
      split: result.splits if_splits)

text \<open>
  \<^verbatim>\<open>synchronize\<close>: one \<^verbatim>\<open>advance\<close>, then the \<^verbatim>\<open>while\<close> loop, which is
  \<open>synchronize_loop\<close>. The loop ends because each round moves the index towards the end
  of the array.
\<close>

function synchronize_loop :: "Token list \<Rightarrow> Parser \<Rightarrow> unit result" where
  "synchronize_loop ts p =
     bind (isAtEnd ts p) (\<lambda>e p.
       if e then Ok () p
       else bind (previous ts p) (\<lambda>prev p.
         if kind prev = TK_SEMICOLON then Ok () p
         else bind (current ts p) (\<lambda>cur p.
           if kind cur = TK_LET \<or> kind cur = TK_FUNC \<or> kind cur = TK_IF \<or> kind cur = TK_WHILE
           then Ok () p
           else bind (advance ts p) (\<lambda>_ p. synchronize_loop ts p))))"
  by pat_completeness auto

termination
  by (relation "measure (\<lambda>(ts, p). length ts - i p)")
     (auto dest!: isAtEnd_Ok previous_Ok current_Ok advance_Ok split: if_splits)

definition synchronize :: "Token list \<Rightarrow> Parser \<Rightarrow> unit result" where
  "synchronize ts p = bind (advance ts p) (\<lambda>_ p. synchronize_loop ts p)"

section \<open>Declarations and statements\<close>

text \<open>
  Modelled from the spec: the text of a token kind in a template literal. The values of
  \<^verbatim>\<open>TK\<close> are in \<^verbatim>\<open>token.ts\<close>, which is not among the sources; the member's name
  stands for its value.
\<close>

fun kind_text :: "TokenKind \<Rightarrow> string" where
  "kind_text TK_FUNC = ''FUNC''" | "kind_text TK_LET = ''LET''" | "kind_text TK_IF = ''IF''"
| "kind_text TK_ELSE = ''ELSE''" | "kind_text TK_WHILE = ''WHILE''"
| "kind_text TK_LBRACE = ''LBRACE''" | "kind_text TK_RBRACE = ''RBRACE''"
| "kind_text TK_LPAREN = ''LPAREN''" | "kind_text TK_RPAREN = ''RPAREN''"
| "kind_text TK_COMMA = ''COMMA''" | "kind_text TK_SEMICOLON = ''SEMICOLON''"
| "kind_text TK_IDENT = ''IDENT''" | "kind_text TK_NUMBER = ''NUMBER''"
| "kind_text TK_STRING = ''STRING''" | "kind_text TK_ASSIGN = ''ASSIGN''"
| "kind_text TK_PLUS_ASSIGN = ''PLUS_ASSIGN''" | "kind_text TK_MINUS_ASSIGN = ''MINUS_ASSIGN''"
| "kind_text TK_STAR_ASSIGN = ''STAR_ASSIGN''" | "kind_text TK_SLASH_ASSIGN = ''SLASH_ASSIGN''"
| "kind_text TK_OR = ''OR''" | "kind_text TK_AND = ''AND''" | "kind_text TK_EQUAL = ''EQUAL''"
| "kind_text TK_NOTEQ = ''NOTEQ''" | "kind_text TK_LT = ''LT''" | "kind_text TK_LTE = ''LTE''"
| "kind_text TK_GT = ''GT''" | "kind_text TK_GTE = ''GTE''" | "kind_text TK_PLUS = ''PLUS''"
| "kind_text TK_MINUS = ''MINUS''" | "kind_text TK_STAR = ''STAR''"
| "kind_text TK_SLASH = ''SLASH''" | "kind_text TK_NOT = ''NOT''" | "kind_text TK_BANG = ''BANG''"
| "kind_text TK_EOF = ''EOF''"

definition peekIsAssignOp :: "Token list \<Rightarrow> Parser \<Rightarrow> bool" where
  "peekIsAssignOp ts p =
     (case peek ts p of
        None \<Rightarrow> False
      | Some next \<Rightarrow>
          kind next = TK_ASSIGN \<or> kind next = TK_PLUS_ASSIGN \<or> kind next = TK_MINUS_ASSIGN \<or>
          kind next = TK_STAR_ASSIGN \<or> kind next = TK_SLASH_ASSIGN)"

definition assignOpFromToken :: "Token \<Rightarrow> Parser \<Rightarrow> AssignOp result" where
  "assignOpFromToken tok p =
     (if kind tok = TK_ASSIGN then Ok A_ASSIGN p
      else if kind tok = TK_PLUS_ASSIGN then Ok A_PLUS_ASSIGN p
      else if kind tok = TK_MINUS_ASSIGN then Ok A_MINUS_ASSIGN p
      else if kind tok = TK_STAR_ASSIGN then Ok A_STAR_ASSIGN p
      else if kind tok = TK_SLASH_ASSIGN then Ok A_SLASH_ASSIGN p
      else Err (error tok
             (''Expected assignment operator, got '' @ [CHR 0x27] @ kind_text (kind tok) @
              [CHR 0x27] @ ''.'')) p)"

definition exprOrAssignStmt :: "nat \<Rightarrow> Token list \<Rightarrow> Parser \<Rightarrow> Stmt result" where
  "exprOrAssignStmt n ts p =
     bind (check ts TK_IDENT p) (\<lambda>c p.
       if c \<and> peekIsAssignOp ts p then
         bind (advance ts p) (\<lambda>nameTok p.
           bind (advance ts p) (\<lambda>opTok p.
             bind (assignOpFromToken opTok p) (\<lambda>op p.
               bind (expression n ts p) (\<lambda>val p.
                 bind (consume ts TK_SEMICOLON ''Expected ';' after assignment.'' p) (\<lambda>_ p.
                   Ok (SAssign (lexeme nameTok) op val) p)))))
       else
         bind (expression n ts p) (\<lambda>expr p.
           bind (consume ts TK_SEMICOLON ''Expected ';' after expression.'' p) (\<lambda>_ p.
             Ok (SExprStmt expr) p)))"

definition letDecl :: "nat \<Rightarrow> Token list \<Rightarrow> Parser \<Rightarrow> Stmt result" where
  "letDecl n ts p =
     bind (consume ts TK_IDENT (''Expected identifier after 'let'' @ [CHR 0x27] @ ''.'') p)
       (\<lambda>nameTok p.
         bind (match ts [TK_ASSIGN] p) (\<lambda>m p.
           bind (if m then bind (expression n ts p) (\<lambda>e p. Ok (Some e) p) else Ok None p)
             (\<lambda>init p.
               bind (consume ts TK_SEMICOLON ''Expected ';' after let declaration.'' p) (\<lambda>_ p.
                 Ok (SLet (lexeme nameTok) init) p))))"

text \<open>The \<^verbatim>\<open>do ... while (this.match(TK.COMMA))\<close> loop of \<^verbatim>\<open>fnDecl\<close>.\<close>

function fnDecl_params :: "Token list \<Rightarrow> string list \<Rightarrow> Parser \<Rightarrow> string list result" where
  "fnDecl_params ts params p =
     bind (consume ts TK_IDENT ''Expected parameter name.'' p) (\<lambda>t p.
       bind (match ts [TK_COMMA] p) (\<lambda>m p.
         if m then fnDecl_params ts (params @ [lexeme t]) p
         else Ok (params @ [lexeme t]) p))"
  by pat_completeness auto

termination
  by (relation "measure (\<lambda>(ts, params, p). length ts - i p)")
     (auto simp del: match.simps dest!: consume_Ok match_Ok_True)

function declaration' :: "nat \<Rightarrow> Token list \<Rightarrow> Parser \<Rightarrow> Stmt option result"
  and declaration_try :: "nat \<Rightarrow> Token list \<Rightarrow> Parser \<Rightarrow> Stmt result"
  and statement :: "nat \<Rightarrow> Token list \<Rightarrow> Parser \<Rightarrow> Stmt result"
  and fnDecl :: "nat \<Rightarrow> Token list \<Rightarrow> Parser \<Rightarrow> Stmt result"
  and ifStmt :: "nat \<Rightarrow> Token list \<Rightarrow> Parser \<Rightarrow> Stmt result"
  and whileStmt :: "nat \<Rightarrow> Token list \<Rightarrow> Parser \<Rightarrow> Stmt result"
  and blockStmtAlreadyOpened :: "nat \<Rightarrow> Token list \<Rightarrow> Parser \<Rightarrow> Stmt result"
  and blockStmtsAlreadyOpened :: "nat \<Rightarrow> Token list \<Rightarrow> Parser \<Rightarrow> Stmt list result"
  and blockStmts_loop :: "nat \<Rightarrow> Token list \<Rightarrow> Stmt list \<Rightarrow> Parser \<Rightarrow> Stmt list result"
where
  "declaration' n ts p =
     (case declaration_try n ts p of
        Ok stmt p \<Rightarrow> Ok (Some stmt) p
      | Err e p \<Rightarrow>
          bind (synchronize ts (p\<lparr>errors := errors p @ [e]\<rparr>)) (\<lambda>_ p. Ok None p)
      | Fatal m p \<Rightarrow> Fatal m p
      | OutOfFuel \<Rightarrow> OutOfFuel)"
| "declaration_try n ts p =
     bind (match ts [TK_FUNC] p) (\<lambda>m p.
       if m then (case n of 0 \<Rightarrow> OutOfFuel | Suc n' \<Rightarrow> fnDecl n' ts p)
       else bind (match ts [TK_LET] p) (\<lambda>m p.
         if m then letDecl n ts p
         else statement n ts p))"
| "statement n ts p =
     bind (match ts [TK_IF] p) (\<lambda>m p.
       if m then (case n of 0 \<Rightarrow> OutOfFuel | Suc n' \<Rightarrow> ifStmt n' ts p)
       else bind (match ts [TK_WHILE] p) (\<lambda>m p.
         if m then (case n of 0 \<Rightarrow> OutOfFuel | Suc n' \<Rightarrow> whileStmt n' ts p)
         else bind (match ts [TK_LBRACE] p) (\<lambda>m p.
           if m then (case n of 0 \<Rightarrow> OutOfFuel | Suc n' \<Rightarrow> blockStmtAlreadyOpened n' ts p)
           else exprOrAssignStmt n ts p)))"
| "fnDecl n ts p =
     bind (consume ts TK_IDENT (''Expected function name after 'func'' @ [CHR 0x27] @ ''.'') p)
       (\<lambda>nameTok p.
         bind (consume ts TK_LPAREN ''Expected '(' after function name.'' p) (\<lambda>_ p.
           bind (check ts TK_RPAREN p) (\<lambda>c p.
             bind (if \<not> c then fnDecl_params ts [] p else Ok [] p) (\<lambda>params p.
               bind (consume ts TK_RPAREN ''Expected ')' after parameters.'' p) (\<lambda>_ p.
                 bind (consume ts TK_LBRACE ''Expected '{' before function body.'' p) (\<lambda>_ p.
                   bind (blockStmtsAlreadyOpened n ts p) (\<lambda>body p.
                     Ok (SFn (lexeme nameTok) params body) p)))))))"
| "ifStmt n ts p =
     bind (consume ts TK_LPAREN (''Expected '(' after 'if'' @ [CHR 0x27] @ ''.'') p) (\<lambda>_ p.
       bind (expression n ts p) (\<lambda>cond p.
         bind (consume ts TK_RPAREN ''Expected ')' after condition.'' p) (\<lambda>_ p.
           bind (statement n ts p) (\<lambda>then_branch p.
             bind (match ts [TK_ELSE] p) (\<lambda>m p.
               if m then
                 bind (statement n ts p) (\<lambda>otherwise p.
                   Ok (SIf cond then_branch (Some otherwise)) p)
               else Ok (SIf cond then_branch None) p)))))"
| "whileStmt n ts p =
     bind (consume ts TK_LPAREN (''Expected '(' after 'while'' @ [CHR 0x27] @ ''.'') p) (\<lambda>_ p.
       bind (expression n ts p) (\<lambda>cond p.
         bind (consume ts TK_RPAREN ''Expected ')' after condition.'' p) (\<lambda>_ p.
           bind (statement n ts p) (\<lambda>body p.
             Ok (SWhile cond body) p))))"
| "blockStmtAlreadyOpened n ts p =
     bind (blockStmtsAlreadyOpened n ts p) (\<lambda>stmts p. Ok (SBlock stmts) p)"
| "blockStmtsAlreadyOpened n ts p =
     bind (blockStmts_loop n ts [] p) (\<lambda>stmts p.
       bind (consume ts TK_RBRACE ''Expected '}' after block.'' p) (\<lambda>_ p.
         Ok stmts p))"
| "blockStmts_loop n ts stmts p =
     bind (check ts TK_RBRACE p) (\<lambda>c p.
       if c then Ok stmts p
       else bind (isAtEnd ts p) (\<lambda>e p.
         if e then Ok stmts p
         else bind (declaration' n ts p) (\<lambda>s p.
           case n of 0 \<Rightarrow> OutOfFuel | Suc n' \<Rightarrow>
             blockStmts_loop n' ts (case s of Some stmt \<Rightarrow> stmts @ [stmt] | None \<Rightarrow> stmts) p)))"
  by pat_completeness auto

text \<open>
  The bound decreases where a token has been consumed; between two such places the
  methods call each other in a fixed order, which the second summand records.
\<close>

termination
  by (relation "measure (\<lambda>x. case x of
          Inl (Inl (Inl (n, _))) \<Rightarrow> 6 * n + 2
        | Inl (Inl (Inr (n, _))) \<Rightarrow> 6 * n + 1
        | Inl (Inr (Inl (n, _))) \<Rightarrow> 6 * n
        | Inl (Inr (Inr (n, _))) \<Rightarrow> 6 * n + 5
        | Inr (Inl (Inl (n, _))) \<Rightarrow> 6 * n + 1
        | Inr (Inl (Inr (n, _))) \<Rightarrow> 6 * n + 1
        | Inr (Inr (Inl (n, _))) \<Rightarrow> 6 * n + 5
        | Inr (Inr (Inr (Inl (n, _)))) \<Rightarrow> 6 * n + 4
        | Inr (Inr (Inr (Inr (n, _)))) \<Rightarrow> 6 * n + 3)") simp_all

section \<open>Program\<close>

fun parseProgram_loop :: "nat \<Rightarrow> Token list \<Rightarrow> Stmt list \<Rightarrow> Parser \<Rightarrow> Stmt list result" where
  "parseProgram_loop n ts out p =
     bind (isAtEnd ts p) (\<lambda>e p.
       if e then Ok out p
       else bind (declaration' n ts p) (\<lambda>stmt p.
         case n of 0 \<Rightarrow> OutOfFuel | Suc n' \<Rightarrow>
           parseProgram_loop n' ts (case stmt of Some s \<Rightarrow> out @ [s] | None \<Rightarrow> out) p))"

text \<open>
  A fresh parser (\<open>i = 0\<close>, no errors) on the token array. One unit of the bound per
  token is enough: that no run is cut off is proved below.
\<close>

definition parseProgram :: "Token list \<Rightarrow> Stmt list result" where
  "parseProgram ts = parseProgram_loop (length ts) ts [] \<lparr>i = 0, errors = []\<rparr>"

section \<open>Driver\<close>

text \<open>
  What the driver does after reading its arguments, as the list of its observable
  actions. The lexer and the interpreter are not among the sources: the lexer is the
  parameter \<open>lexer\<close>, and an interpreter run is the action \<open>RunInterpreter\<close>.
\<close>

datatype action =
    ConsoleError string
  | Exit nat
  | Uncaught string
  | RunInterpreter "Stmt list"
  | Diverge

definition report :: "ParseError \<Rightarrow> action" where
  "report err = ConsoleError
     (''[Code Pattern Error] '' @ message err @ '' at word type '' @
      kind_text (kind (token err)) @ '', word '' @ lexeme (token err))"

definition run_tokens :: "Token list \<Rightarrow> action list" where
  "run_tokens slimTokens =
     (case parseProgram slimTokens of
        Ok slimAst slimParser \<Rightarrow>
          if length (errors slimParser) \<noteq> 0
          then map report (errors slimParser) @ [Exit 1]
          else [RunInterpreter slimAst]
      | Err e _ \<Rightarrow> [Uncaught (message e)]
      | Fatal m _ \<Rightarrow> [Uncaught m]
      | OutOfFuel \<Rightarrow> [Diverge])"

definition lim ::
  "(string \<Rightarrow> Token list) \<Rightarrow> (string \<Rightarrow> string option) \<Rightarrow> string list \<Rightarrow> action list" where
  "lim lexer files args =
     (case args of
        [] \<Rightarrow> [ConsoleError ''[slim ERROR] No files were given to SLIM.'', Exit 1]
      | a # _ \<Rightarrow>
          if a = [] then [ConsoleError ''[slim ERROR] No files were given to SLIM.'', Exit 1]
          else (case files a of
                  None \<Rightarrow>
                    [ConsoleError (''[slim ERROR] File '' @ [CHR 0x27] @ a @ [CHR 0x27] @
                                   '' does not exist.''), Exit 1]
                | Some src \<Rightarrow> run_tokens (lexer src)))"

section \<open>Vocabulary of the properties\<close>

subsection \<open>Progress through the token array\<close>

definition moved :: "Token list \<Rightarrow> Parser \<Rightarrow> Parser \<Rightarrow> bool" where
  "moved ts p p' \<longleftrightarrow>
     i p \<le> i p' \<and> (\<forall>j. i p \<le> j \<and> j < i p' \<longrightarrow> j < length ts \<and> kind (ts ! j) \<noteq> TK_EOF)"

text \<open>
  \<open>sound ts s p r\<close>: the run \<open>r\<close>, started in \<open>p\<close>, was not cut off; it has only moved the
  index forward, over tokens other than end-of-input; a normal return has consumed at
  least \<open>s\<close> tokens; a parse error carries the token the index stands at; a fatal error
  leaves the index outside the array.
\<close>

definition sound :: "Token list \<Rightarrow> nat \<Rightarrow> Parser \<Rightarrow> 'a result \<Rightarrow> bool" where
  "sound ts s p r =
     (case r of
        Ok v p' \<Rightarrow> moved ts p p' \<and> i p + s \<le> i p'
      | Err e p' \<Rightarrow> moved ts p p' \<and> i p' < length ts \<and> token e = ts ! i p'
      | Fatal m p' \<Rightarrow> moved ts p p' \<and> length ts \<le> i p'
      | OutOfFuel \<Rightarrow> False)"

definition noerr :: "'a result \<Rightarrow> bool" where
  "noerr r \<longleftrightarrow> (\<forall>e p. r \<noteq> Err e p)"

definition expr_sound :: "nat \<Rightarrow> bool" where
  "expr_sound n \<longleftrightarrow> (\<forall>ts p. length ts \<le> i p + n \<longrightarrow>
       sound ts 1 p (expression n ts p) \<and> sound ts 1 p (logicOr n ts p) \<and>
       sound ts 1 p (logicAnd n ts p) \<and> sound ts 1 p (equality n ts p) \<and>
       sound ts 1 p (comparison n ts p) \<and> sound ts 1 p (term' n ts p) \<and>
       sound ts 1 p (factor n ts p) \<and> sound ts 1 p (unary n ts p) \<and>
       sound ts 1 p (call n ts p) \<and> sound ts 1 p (primary n ts p) \<and>
       (\<forall>e. sound ts 0 p (logicOr_loop n ts e p) \<and> sound ts 0 p (logicAnd_loop n ts e p) \<and>
            sound ts 0 p (equality_loop n ts e p) \<and> sound ts 0 p (comparison_loop n ts e p) \<and>
            sound ts 0 p (term_loop n ts e p) \<and> sound ts 0 p (factor_loop n ts e p) \<and>
            sound ts 0 p (call_loop n ts e p)) \<and>
       (\<forall>a. sound ts 1 p (arguments n ts a p)))"

definition stmt_sound :: "nat \<Rightarrow> bool" where
  "stmt_sound n \<longleftrightarrow> (\<forall>ts p. length ts \<le> i p + n \<longrightarrow>
       sound ts 1 p (declaration_try n ts p) \<and> sound ts 1 p (statement n ts p) \<and>
       sound ts 1 p (fnDecl n ts p) \<and> sound ts 1 p (ifStmt n ts p) \<and>
       sound ts 1 p (whileStmt n ts p) \<and> sound ts 1 p (blockStmtAlreadyOpened n ts p) \<and>
       sound ts 1 p (blockStmtsAlreadyOpened n ts p) \<and>
       (\<forall>ss. sound ts 0 p (blockStmts_loop n ts ss p)) \<and>
       (i p < length ts \<and> kind (ts ! i p) \<noteq> TK_EOF \<longrightarrow>
          sound ts 1 p (declaration' n ts p) \<and> noerr (declaration' n ts p)))"


subsection \<open>Sample tokens\<close>

definition tk :: "TokenKind \<Rightarrow> string \<Rightarrow> Token" where
  "tk k s = \<lparr>kind = k, lexeme = s, literal = None\<rparr>"


subsection \<open>A larger bound\<close>

text \<open>\<open>ext r r'\<close>: the run \<open>r'\<close> agrees with \<open>r\<close> unless \<open>r\<close> was cut off by its bound.\<close>

definition ext :: "'a result \<Rightarrow> 'a result \<Rightarrow> bool" where
  "ext r r' \<longleftrightarrow> (r \<noteq> OutOfFuel \<longrightarrow> r' = r)"

definition expr_ext :: "nat \<Rightarrow> bool" where
  "expr_ext n \<longleftrightarrow> (\<forall>m ts p. n \<le> m \<longrightarrow>
       ext (expression n ts p) (expression m ts p) \<and> ext (logicOr n ts p) (logicOr m ts p) \<and>
       ext (logicAnd n ts p) (logicAnd m ts p) \<and> ext (equality n ts p) (equality m ts p) \<and>
       ext (comparison n ts p) (comparison m ts p) \<and> ext (term' n ts p) (term' m ts p) \<and>
       ext (factor n ts p) (factor m ts p) \<and> ext (unary n ts p) (unary m ts p) \<and>
       ext (call n ts p) (call m ts p) \<and> ext (primary n ts p) (primary m ts p) \<and>
       (\<forall>e. ext (logicOr_loop n ts e p) (logicOr_loop m ts e p) \<and>
            ext (logicAnd_loop n ts e p) (logicAnd_loop m ts e p) \<and>
            ext (equality_loop n ts e p) (equality_loop m ts e p) \<and>
            ext (comparison_loop n ts e p) (comparison_loop m ts e p) \<and>
            ext (term_loop n ts e p) (term_loop m ts e p) \<and>
            ext (factor_loop n ts e p) (factor_loop m ts e p) \<and>
            ext (call_loop n ts e p) (call_loop m ts e p)) \<and>
       (\<forall>a. ext (arguments n ts a p) (arguments m ts a p)))"


subsection \<open>Where recovery resumes\<close>

text \<open>
  \<open>sync_stop ts j\<close>: the loop of \<^verbatim>\<open>synchronize\<close> ends when the index is \<open>j\<close>: the token there
  is end-of-input, or the token before is \<^verbatim>\<open>;\<close>, or the token there is one of
  \<^verbatim>\<open>let\<close>, \<^verbatim>\<open>func\<close>, \<^verbatim>\<open>if\<close>, \<^verbatim>\<open>while\<close>.
\<close>

definition sync_stop :: "Token list \<Rightarrow> nat \<Rightarrow> bool" where
  "sync_stop ts j \<longleftrightarrow>
     kind (ts ! j) = TK_EOF \<or> kind (ts ! (j - 1)) = TK_SEMICOLON \<or>
     kind (ts ! j) = TK_LET \<or> kind (ts ! j) = TK_FUNC \<or> kind (ts ! j) = TK_IF \<or>
     kind (ts ! j) = TK_WHILE"

text \<open>
  \<open>resume_point ts s k\<close>: recovery from an error at index \<open>s\<close> resumes at index \<open>k\<close>. An
  end-of-input token at \<open>s\<close> is not discarded. Any other token at \<open>s\<close> is discarded, and
  so is every token after it up to the first index where the loop ends.
\<close>

definition resume_point :: "Token list \<Rightarrow> nat \<Rightarrow> nat \<Rightarrow> bool" where
  "resume_point ts s k \<longleftrightarrow>
     (if kind (ts ! s) = TK_EOF then k = s
      else s < k \<and> (\<forall>j. s < j \<and> j < k \<longrightarrow> \<not> sync_stop ts j) \<and> sync_stop ts k)"

subsection \<open>Well-formed expressions\<close>

text \<open>
  Modelled from the spec: the expression grammar of section 4.2 without calls, as syntax
  trees over the tokens themselves. \<open>tokens_of\<close> is the token sequence a tree is written
  as, \<open>ast_of\<close> the node the grammar assigns to it, and \<open>wf k\<close> says that the tree is a
  sentence of the production of tier \<open>k\<close>: 1 \<open>logicOr\<close>, 2 \<open>logicAnd\<close>, 3 \<open>equality\<close>,
  4 \<open>comparison\<close>, 5 \<open>term\<close>, 6 \<open>factor\<close>, 7 \<open>unary\<close>. A binary tier is left-associative: the
  left operand of an operator of tier \<open>j\<close> is a sentence of tier \<open>j\<close>, the right operand one
  of tier \<open>j + 1\<close>.
\<close>

datatype cst =
    CNum Token
  | CStr Token
  | CIdent Token
  | CGroup Token cst Token
  | CUnary Token cst
  | CBinary cst Token cst

fun tokens_of :: "cst \<Rightarrow> Token list" where
  "tokens_of (CNum t) = [t]"
| "tokens_of (CStr t) = [t]"
| "tokens_of (CIdent t) = [t]"
| "tokens_of (CGroup l c r) = l # tokens_of c @ [r]"
| "tokens_of (CUnary t c) = t # tokens_of c"
| "tokens_of (CBinary a t b) = tokens_of a @ t # tokens_of b"

fun tier :: "TokenKind \<Rightarrow> nat" where
  "tier TK_OR = 1"
| "tier TK_AND = 2"
| "tier TK_EQUAL = 3" | "tier TK_NOTEQ = 3"
| "tier TK_LT = 4" | "tier TK_LTE = 4" | "tier TK_GT = 4" | "tier TK_GTE = 4"
| "tier TK_PLUS = 5" | "tier TK_MINUS = 5"
| "tier TK_STAR = 6" | "tier TK_SLASH = 6"
| "tier _ = 0"

fun binop :: "TokenKind \<Rightarrow> BinaryOp" where
  "binop TK_OR = B_OR"
| "binop TK_AND = B_AND"
| "binop TK_EQUAL = B_EQUAL" | "binop TK_NOTEQ = B_NOTEQ"
| "binop TK_LT = B_LT" | "binop TK_LTE = B_LTE" | "binop TK_GT = B_GT" | "binop TK_GTE = B_GTE"
| "binop TK_PLUS = B_PLUS" | "binop TK_MINUS = B_MINUS"
| "binop TK_STAR = B_STAR" | "binop TK_SLASH = B_SLASH"
| "binop _ = B_OR"

fun unop :: "TokenKind \<Rightarrow> UnaryOp" where
  "unop TK_MINUS = U_MINUS"
| "unop _ = U_NOT"

fun ast_of :: "cst \<Rightarrow> Expr" where
  "ast_of (CNum t) = Num (literal_or_lexeme t)"
| "ast_of (CStr t) = Str (literal_or_lexeme t)"
| "ast_of (CIdent t) = Ident (lexeme t)"
| "ast_of (CGroup l c r) = Group (ast_of c)"
| "ast_of (CUnary t c) = Unary (unop (kind t)) (ast_of c)"
| "ast_of (CBinary a t b) = Binary (binop (kind t)) (ast_of a) (ast_of b)"

fun wf :: "nat \<Rightarrow> cst \<Rightarrow> bool" where
  "wf k (CNum t) = (kind t = TK_NUMBER)"
| "wf k (CStr t) = (kind t = TK_STRING)"
| "wf k (CIdent t) = (kind t = TK_IDENT)"
| "wf k (CGroup l c r) = (kind l = TK_LPAREN \<and> kind r = TK_RPAREN \<and> wf 1 c)"
| "wf k (CUnary t c) =
     (k \<le> 7 \<and> (kind t = TK_NOT \<or> kind t = TK_MINUS \<or> kind t = TK_BANG) \<and> wf 7 c)"
| "wf k (CBinary a t b) =
     (0 < tier (kind t) \<and> k \<le> tier (kind t) \<and>
      wf (tier (kind t)) a \<and> wf (Suc (tier (kind t))) b)"

text \<open>
  Modelled from the spec: the expressions over \<^verbatim>\<open>+ - * /\<close>, parentheses and number
  literals, and the number such an expression denotes in exact arithmetic (none where a
  divisor is zero, or where a node is no such expression). The interpreter that evaluates
  a tree is not among the sources.
\<close>

fun arith :: "cst \<Rightarrow> bool" where
  "arith (CNum t) = True"
| "arith (CGroup l c r) = arith c"
| "arith (CBinary a t b) =
     ((kind t = TK_PLUS \<or> kind t = TK_MINUS \<or> kind t = TK_STAR \<or> kind t = TK_SLASH) \<and>
      arith a \<and> arith b)"
| "arith _ = False"

fun denote :: "Expr \<Rightarrow> rat option" where
  "denote (Num (OfLiteral (NumberLit v))) = Some v"
| "denote (Group e) = denote e"
| "denote (Binary op a b) =
     (case (denote a, denote b) of
        (Some x, Some y) \<Rightarrow>
          (if op = B_PLUS then Some (x + y)
           else if op = B_MINUS then Some (x - y)
           else if op = B_STAR then Some (x * y)
           else if op = B_SLASH \<and> y \<noteq> 0 then Some (x / y)
           else None)
      | _ \<Rightarrow> None)"
| "denote _ = None"

text \<open>The method and the loop of a tier, by its number.\<close>

definition parse_at :: "nat \<Rightarrow> nat \<Rightarrow> Token list \<Rightarrow> Parser \<Rightarrow> Expr result" where
  "parse_at k n ts p =
     (if k = 1 then logicOr n ts p
      else if k = 2 then logicAnd n ts p
      else if k = 3 then equality n ts p
      else if k = 4 then comparison n ts p
      else if k = 5 then term' n ts p
      else if k = 6 then factor n ts p
      else unary n ts p)"

definition loop_at :: "nat \<Rightarrow> nat \<Rightarrow> Token list \<Rightarrow> Expr \<Rightarrow> Parser \<Rightarrow> Expr result" where
  "loop_at k n ts e p =
     (if k = 1 then logicOr_loop n ts e p
      else if k = 2 then logicAnd_loop n ts e p
      else if k = 3 then equality_loop n ts e p
      else if k = 4 then comparison_loop n ts e p
      else if k = 5 then term_loop n ts e p
      else if k = 6 then factor_loop n ts e p
      else Ok e p)"

text \<open>A number token, for the examples.\<close>

definition num :: "int \<Rightarrow> Token" where
  "num v = \<lparr>kind = TK_NUMBER, lexeme = [], literal = Some (NumberLit (of_int v))\<rparr>"

subsection \<open>Two token arrays that agree from an index on\<close>

text \<open>
  \<open>agree a ts ts'\<close>: the arrays have the same length and the same tokens at every index
  from \<open>a\<close> on. \<open>same r r'\<close>: two runs have the same outcome.
\<close>

definition agree :: "nat \<Rightarrow> Token list \<Rightarrow> Token list \<Rightarrow> bool" where
  "agree a ts ts' \<longleftrightarrow> length ts' = length ts \<and> (\<forall>j\<ge>a. ts' ! j = ts ! j)"

definition same :: "'a result \<Rightarrow> 'a result \<Rightarrow> bool" where
  "same r r' \<longleftrightarrow> r' = r"

definition expr_frame :: "nat \<Rightarrow> Token list \<Rightarrow> Token list \<Rightarrow> nat \<Rightarrow> bool" where
  "expr_frame a ts ts' n \<longleftrightarrow> (\<forall>p. a \<le> i p \<and> length ts \<le> i p + n \<longrightarrow>
       same (expression n ts p) (expression n ts' p) \<and>
       same (logicOr n ts p) (logicOr n ts' p) \<and>
       same (logicAnd n ts p) (logicAnd n ts' p) \<and>
       same (equality n ts p) (equality n ts' p) \<and>
       same (comparison n ts p) (comparison n ts' p) \<and>
       same (term' n ts p) (term' n ts' p) \<and>
       same (factor n ts p) (factor n ts' p) \<and>
       same (unary n ts p) (unary n ts' p) \<and>
       same (call n ts p) (call n ts' p) \<and>
       same (primary n ts p) (primary n ts' p) \<and>
       (\<forall>e. same (logicOr_loop n ts e p) (logicOr_loop n ts' e p) \<and>
            same (logicAnd_loop n ts e p) (logicAnd_loop n ts' e p) \<and>
            same (equality_loop n ts e p) (equality_loop n ts' e p) \<and>
            same (comparison_loop n ts e p) (comparison_loop n ts' e p) \<and>
            same (term_loop n ts e p) (term_loop n ts' e p) \<and>
            same (factor_loop n ts e p) (factor_loop n ts' e p) \<and>
            same (call_loop n ts e p) (call_loop n ts' e p)) \<and>
       (\<forall>args. same (arguments n ts args p) (arguments n ts' args p)))"

subsection \<open>Successive top-level declarations\<close>





section \<open>Properties\<close>

declare expression.simps [simp del] logicOr.simps [simp del] logicOr_loop.simps [simp del]
  logicAnd.simps [simp del] logicAnd_loop.simps [simp del] equality.simps [simp del]
  equality_loop.simps [simp del] comparison.simps [simp del] comparison_loop.simps [simp del]
  term'.simps [simp del] term_loop.simps [simp del] factor.simps [simp del]
  factor_loop.simps [simp del] unary.simps [simp del] call.simps [simp del]
  call_loop.simps [simp del] arguments.simps [simp del] primary.simps [simp del]
  synchronize_loop.simps [simp del] fnDecl_params.simps [simp del]
  declaration'.simps [simp del] declaration_try.simps [simp del] statement.simps [simp del]
  fnDecl.simps [simp del] ifStmt.simps [simp del] whileStmt.simps [simp del]
  blockStmtAlreadyOpened.simps [simp del] blockStmtsAlreadyOpened.simps [simp del]
  blockStmts_loop.simps [simp del] parseProgram_loop.simps [simp del]

subsection \<open>The helpers on an index inside and outside the array\<close>

lemma current_in: "i p < length ts \<Longrightarrow> current ts p = Ok (ts ! i p) p"
  by (simp add: current_def)

lemma current_out:
  "length ts \<le> i p \<Longrightarrow> current ts p = Fatal ''Parser invariant violated: missing EOF token'' p"
  by (simp add: current_def)

lemma isAtEnd_in: "i p < length ts \<Longrightarrow> isAtEnd ts p = Ok (kind (ts ! i p) = TK_EOF) p"
  by (simp add: isAtEnd_def current_in)

lemma isAtEnd_out:
  "length ts \<le> i p \<Longrightarrow> isAtEnd ts p = Fatal ''Parser invariant violated: missing EOF token'' p"
  by (simp add: isAtEnd_def current_out)

lemma check_in:
  "i p < length ts \<Longrightarrow>
   check ts k p = Ok (kind (ts ! i p) \<noteq> TK_EOF \<and> kind (ts ! i p) = k) p"
  by (simp add: check_def isAtEnd_in current_in)

lemma check_out:
  "length ts \<le> i p \<Longrightarrow> check ts k p = Fatal ''Parser invariant violated: missing EOF token'' p"
  by (simp add: check_def isAtEnd_out)

lemma advance_in:
  "i p < length ts \<Longrightarrow> kind (ts ! i p) \<noteq> TK_EOF \<Longrightarrow>
   advance ts p = Ok (ts ! i p) (p\<lparr>i := i p + 1\<rparr>)"
  by (simp add: advance_def isAtEnd_in previous_def)

lemma previous_in: "0 < i p \<Longrightarrow> i p \<le> length ts \<Longrightarrow> previous ts p = Ok (ts ! (i p - 1)) p"
  by (auto simp add: previous_def)

lemma match_in:
  "i p < length ts \<Longrightarrow>
   match ts ks p =
     (if kind (ts ! i p) \<noteq> TK_EOF \<and> kind (ts ! i p) \<in> set ks
      then Ok True (p\<lparr>i := i p + 1\<rparr>) else Ok False p)"
  by (induction ks) (auto simp: check_in advance_in)

lemma match_out:
  "length ts \<le> i p \<Longrightarrow> ks \<noteq> [] \<Longrightarrow>
   match ts ks p = Fatal ''Parser invariant violated: missing EOF token'' p"
  by (cases ks) (simp_all add: check_out)

declare match.simps [simp del]

lemma consume_in:
  "i p < length ts \<Longrightarrow>
   consume ts k msg p =
     (if kind (ts ! i p) \<noteq> TK_EOF \<and> kind (ts ! i p) = k
      then Ok (ts ! i p) (p\<lparr>i := i p + 1\<rparr>) else Err (error (ts ! i p) msg) p)"
  by (simp add: consume_def check_in advance_in current_in)

lemma consume_out:
  "length ts \<le> i p \<Longrightarrow>
   consume ts k msg p = Fatal ''Parser invariant violated: missing EOF token'' p"
  by (simp add: consume_def check_out)

subsection \<open>Progress\<close>

lemma error_sel [simp]: "token (error t m) = t" "message (error t m) = m"
  by (simp_all add: error_def)

lemma moved_refl [simp]: "moved ts p p"
  by (auto simp: moved_def)

lemma moved_trans:
  assumes "moved ts p p'" "moved ts p' p''"
  shows "moved ts p p''"
proof -
  have "j < length ts \<and> kind (ts ! j) \<noteq> TK_EOF" if "i p \<le> j" "j < i p''" for j
  proof (cases "j < i p'")
    case True
    with that assms(1) show ?thesis by (simp add: moved_def)
  next
    case False
    with that assms(2) show ?thesis by (simp add: moved_def)
  qed
  moreover have "i p \<le> i p''" using assms by (simp add: moved_def)
  ultimately show ?thesis by (simp add: moved_def)
qed

lemma moved_step:
  assumes "i p < length ts" "kind (ts ! i p) \<noteq> TK_EOF"
  shows "moved ts p (p\<lparr>i := i p + 1\<rparr>)"
proof -
  have "j < length ts \<and> kind (ts ! j) \<noteq> TK_EOF" if "i p \<le> j" "j < i p + 1" for j
  proof -
    from that have "j = i p" by arith
    with assms show ?thesis by simp
  qed
  then show ?thesis by (simp add: moved_def)
qed

lemma sound_simps [simp]:
  "sound ts s p (Ok v p') \<longleftrightarrow> moved ts p p' \<and> i p + s \<le> i p'"
  "sound ts s p (Err e p') \<longleftrightarrow> moved ts p p' \<and> i p' < length ts \<and> token e = ts ! i p'"
  "sound ts s p (Fatal m p') \<longleftrightarrow> moved ts p p' \<and> length ts \<le> i p'"
  "\<not> sound ts s p OutOfFuel"
  by (simp_all add: sound_def)

lemma sound_bindI:
  assumes "sound ts s1 p r"
    and "\<And>v p'. moved ts p p' \<Longrightarrow> i p + s1 \<le> i p' \<Longrightarrow> sound ts (s - s1) p' (f v p')"
  shows "sound ts s p (bind r f)"
proof (cases r)
  case (Ok v p')
  with assms(1) have m: "moved ts p p'" "i p + s1 \<le> i p'" by simp_all
  from assms(2)[OF m] have "sound ts (s - s1) p' (f v p')" .
  with m show ?thesis unfolding Ok
    by (cases "f v p'") (auto intro: moved_trans)
qed (use assms(1) in auto)

lemma sound_stepI:
  assumes "i p < length ts" "kind (ts ! i p) \<noteq> TK_EOF"
    and "sound ts (s - 1) (p\<lparr>i := i p + 1\<rparr>) r"
  shows "sound ts s p r"
  using assms(3) moved_step[OF assms(1,2)]
  by (cases r) (auto intro: moved_trans)

lemma sound_matchI:
  assumes "ks \<noteq> []"
    and "i p < length ts \<Longrightarrow> kind (ts ! i p) \<noteq> TK_EOF \<Longrightarrow> kind (ts ! i p) \<in> set ks \<Longrightarrow>
         sound ts (s - 1) (p\<lparr>i := i p + 1\<rparr>) (f True (p\<lparr>i := i p + 1\<rparr>))"
    and "i p < length ts \<Longrightarrow> kind (ts ! i p) \<notin> set ks \<or> kind (ts ! i p) = TK_EOF \<Longrightarrow>
         sound ts s p (f False p)"
  shows "sound ts s p (bind (match ts ks p) f)"
proof (cases "i p < length ts")
  case True
  then show ?thesis using assms(2,3)
    by (auto simp: match_in intro: sound_stepI)
next
  case False
  then show ?thesis using assms(1) by (simp add: match_out)
qed

lemma sound_consumeI:
  assumes "i p < length ts \<Longrightarrow> kind (ts ! i p) = k \<Longrightarrow> kind (ts ! i p) \<noteq> TK_EOF \<Longrightarrow>
         sound ts (s - 1) (p\<lparr>i := i p + 1\<rparr>) (f (ts ! i p) (p\<lparr>i := i p + 1\<rparr>))"
  shows "sound ts s p (bind (consume ts k msg p) f)"
proof (cases "i p < length ts")
  case True
  then show ?thesis using assms
    by (auto simp: consume_in intro: sound_stepI)
next
  case False
  then show ?thesis by (simp add: consume_out)
qed

lemma sound_checkI:
  assumes "i p < length ts \<Longrightarrow>
           sound ts s p (f (kind (ts ! i p) \<noteq> TK_EOF \<and> kind (ts ! i p) = k) p)"
  shows "sound ts s p (bind (check ts k p) f)"
  using assms by (cases "i p < length ts") (simp_all add: check_in check_out)

lemma sound_currentI:
  assumes "i p < length ts \<Longrightarrow> sound ts s p (f (ts ! i p) p)"
  shows "sound ts s p (bind (current ts p) f)"
  using assms by (cases "i p < length ts") (simp_all add: current_in current_out)

lemma sound_isAtEndI:
  assumes "i p < length ts \<Longrightarrow> sound ts s p (f (kind (ts ! i p) = TK_EOF) p)"
  shows "sound ts s p (bind (isAtEnd ts p) f)"
  using assms by (cases "i p < length ts") (simp_all add: isAtEnd_in isAtEnd_out)

lemma sound_previousI:
  assumes "0 < i p" "i p \<le> length ts" "sound ts s p (f (ts ! (i p - 1)) p)"
  shows "sound ts s p (bind (previous ts p) f)"
  using assms by (simp add: previous_in)

lemma sound_ifI:
  "(c \<Longrightarrow> sound ts s p a) \<Longrightarrow> (\<not> c \<Longrightarrow> sound ts s p b) \<Longrightarrow> sound ts s p (if c then a else b)"
  by simp

lemma sound_fuelI:
  assumes "0 < n" "\<And>n'. n = Suc n' \<Longrightarrow> sound ts s p (f n')"
  shows "sound ts s p (case n of 0 \<Rightarrow> OutOfFuel | Suc n' \<Rightarrow> f n')"
  using assms by (cases n) auto

lemma sound_bind_ifI:
  "(c \<Longrightarrow> sound ts s p (bind a f)) \<Longrightarrow> (\<not> c \<Longrightarrow> sound ts s p (bind b f)) \<Longrightarrow>
   sound ts s p (bind (if c then a else b) f)"
  by simp

lemma sound_bind_OkI: "sound ts s p (f v p) \<Longrightarrow> sound ts s p (bind (Ok v p) f)"
  by simp

lemma sound_weaken: "sound ts s p r \<Longrightarrow> s' \<le> s \<Longrightarrow> sound ts s' p r"
  by (cases r) auto

lemma bind_assoc: "bind (bind r g) f = bind r (\<lambda>v p. bind (g v p) f)"
  by (cases r) simp_all

lemma sound_bind_assocI:
  "sound ts s p (bind r (\<lambda>v p. bind (g v p) f)) \<Longrightarrow> sound ts s p (bind (bind r g) f)"
  by (simp add: bind_assoc)

lemma sound_advanceI:
  assumes "i p < length ts" "kind (ts ! i p) \<noteq> TK_EOF"
    and "sound ts (s - 1) (p\<lparr>i := i p + 1\<rparr>) (f (ts ! i p) (p\<lparr>i := i p + 1\<rparr>))"
  shows "sound ts s p (bind (advance ts p) f)"
  using assms by (auto simp: advance_in intro: sound_stepI)

lemma sound_assignOpI:
  assumes "kind tok = TK_ASSIGN \<or> kind tok = TK_PLUS_ASSIGN \<or> kind tok = TK_MINUS_ASSIGN \<or>
           kind tok = TK_STAR_ASSIGN \<or> kind tok = TK_SLASH_ASSIGN"
    and "\<And>op. sound ts s p (f op p)"
  shows "sound ts s p (bind (assignOpFromToken tok p) f)"
  using assms by (auto simp add: assignOpFromToken_def)

lemmas sound_intros =
  sound_matchI sound_consumeI sound_checkI sound_currentI sound_isAtEndI sound_previousI
  sound_ifI sound_fuelI sound_bind_ifI sound_bind_OkI sound_bind_assocI sound_advanceI
  sound_assignOpI


lemma expr_sound: "expr_sound n"
proof (induction n rule: less_induct)
  case (less n)
  have expression': "sound ts 1 p (expression m ts p)"
    and logicAnd': "sound ts 1 p (logicAnd m ts p)"
    and equality': "sound ts 1 p (equality m ts p)"
    and comparison': "sound ts 1 p (comparison m ts p)"
    and term': "sound ts 1 p (term' m ts p)"
    and factor': "sound ts 1 p (factor m ts p)"
    and unary': "sound ts 1 p (unary m ts p)"
    and logicOr_loop': "sound ts 0 p (logicOr_loop m ts e p)"
    and logicAnd_loop': "sound ts 0 p (logicAnd_loop m ts e p)"
    and equality_loop': "sound ts 0 p (equality_loop m ts e p)"
    and comparison_loop': "sound ts 0 p (comparison_loop m ts e p)"
    and term_loop': "sound ts 0 p (term_loop m ts e p)"
    and factor_loop': "sound ts 0 p (factor_loop m ts e p)"
    and call_loop': "sound ts 0 p (call_loop m ts e p)"
    and arguments': "sound ts 1 p (arguments m ts a p)"
    if "m < n" "length ts \<le> i p + m" for m ts p e a
    using less.IH[OF that(1)] that(2) unfolding expr_sound_def by blast+
  have primary: "sound ts 1 p (primary n ts p)" if "length ts \<le> i p + n" for ts p
    by (subst primary.simps)
       (use that in \<open>intro sound_intros sound_bindI[OF expression']; simp\<close>)
  have call_loop: "sound ts 0 p (call_loop n ts e p)" if "length ts \<le> i p + n" for ts p e
    by (subst call_loop.simps)
       (use that in \<open>intro sound_intros sound_bindI[OF arguments'] sound_weaken[OF call_loop']; simp\<close>)
  have call: "sound ts 1 p (call n ts p)" if "length ts \<le> i p + n" for ts p
    by (subst call.simps)
       (use that in \<open>intro sound_intros sound_bindI[OF primary] sound_weaken[OF call_loop]; simp\<close>)
  have unary: "sound ts 1 p (unary n ts p)" if "length ts \<le> i p + n" for ts p
    by (subst unary.simps)
       (use that in \<open>intro sound_intros sound_bindI[OF unary'] sound_weaken[OF call]; simp\<close>)
  have factor_loop: "sound ts 0 p (factor_loop n ts e p)" if "length ts \<le> i p + n" for ts p e
    by (subst factor_loop.simps)
       (use that in \<open>intro sound_intros sound_bindI[OF unary'] sound_weaken[OF factor_loop']; simp\<close>)
  have factor: "sound ts 1 p (factor n ts p)" if "length ts \<le> i p + n" for ts p
    by (subst factor.simps)
       (use that in \<open>intro sound_intros sound_bindI[OF unary] sound_weaken[OF factor_loop]; simp\<close>)
  have term_loop: "sound ts 0 p (term_loop n ts e p)" if "length ts \<le> i p + n" for ts p e
    by (subst term_loop.simps)
       (use that in \<open>intro sound_intros sound_bindI[OF factor'] sound_weaken[OF term_loop']; simp\<close>)
  have term_n: "sound ts 1 p (term' n ts p)" if "length ts \<le> i p + n" for ts p
    by (subst term'.simps)
       (use that in \<open>intro sound_intros sound_bindI[OF factor] sound_weaken[OF term_loop]; simp\<close>)
  have comparison_loop: "sound ts 0 p (comparison_loop n ts e p)"
    if "length ts \<le> i p + n" for ts p e
    by (subst comparison_loop.simps)
       (use that in \<open>intro sound_intros sound_bindI[OF term'] sound_weaken[OF comparison_loop']; simp\<close>)
  have comparison: "sound ts 1 p (comparison n ts p)" if "length ts \<le> i p + n" for ts p
    by (subst comparison.simps)
       (use that in \<open>intro sound_intros sound_bindI[OF term_n] sound_weaken[OF comparison_loop]; simp\<close>)
  have equality_loop: "sound ts 0 p (equality_loop n ts e p)"
    if "length ts \<le> i p + n" for ts p e
    by (subst equality_loop.simps)
       (use that in \<open>intro sound_intros sound_bindI[OF comparison'] sound_weaken[OF equality_loop']; simp\<close>)
  have equality: "sound ts 1 p (equality n ts p)" if "length ts \<le> i p + n" for ts p
    by (subst equality.simps)
       (use that in \<open>intro sound_intros sound_bindI[OF comparison] sound_weaken[OF equality_loop]; simp\<close>)
  have logicAnd_loop: "sound ts 0 p (logicAnd_loop n ts e p)"
    if "length ts \<le> i p + n" for ts p e
    by (subst logicAnd_loop.simps)
       (use that in \<open>intro sound_intros sound_bindI[OF equality'] sound_weaken[OF logicAnd_loop']; simp\<close>)
  have logicAnd: "sound ts 1 p (logicAnd n ts p)" if "length ts \<le> i p + n" for ts p
    by (subst logicAnd.simps)
       (use that in \<open>intro sound_intros sound_bindI[OF equality] sound_weaken[OF logicAnd_loop]; simp\<close>)
  have logicOr_loop: "sound ts 0 p (logicOr_loop n ts e p)"
    if "length ts \<le> i p + n" for ts p e
    by (subst logicOr_loop.simps)
       (use that in \<open>intro sound_intros sound_bindI[OF logicAnd'] sound_weaken[OF logicOr_loop']; simp\<close>)
  have logicOr: "sound ts 1 p (logicOr n ts p)" if "length ts \<le> i p + n" for ts p
    by (subst logicOr.simps)
       (use that in \<open>intro sound_intros sound_bindI[OF logicAnd] sound_weaken[OF logicOr_loop]; simp\<close>)
  have expression: "sound ts 1 p (expression n ts p)" if "length ts \<le> i p + n" for ts p
    by (subst expression.simps) (rule logicOr[OF that])
  have arguments: "sound ts 1 p (arguments n ts a p)" if "length ts \<le> i p + n" for ts p a
    by (subst arguments.simps)
       (use that in \<open>intro sound_intros sound_bindI[OF expression] sound_weaken[OF arguments']; simp\<close>)
  show ?case
    unfolding expr_sound_def
    using primary call_loop call unary factor_loop factor term_loop term_n comparison_loop
      comparison equality_loop equality logicAnd_loop logicAnd logicOr_loop logicOr expression
      arguments
    by simp
qed

lemma expression_sound:
  "length ts \<le> i p + n \<Longrightarrow> sound ts 1 p (expression n ts p)"
  using expr_sound[of n] unfolding expr_sound_def by blast

subsection \<open>No parse error escapes recovery\<close>

lemma noerr_simps [simp]:
  "noerr (Ok v p)" "\<not> noerr (Err e p)" "noerr (Fatal m p)" "noerr OutOfFuel"
  by (simp_all add: noerr_def)

lemma noerr_bindI:
  "noerr r \<Longrightarrow> (\<And>v p. r = Ok v p \<Longrightarrow> noerr (f v p)) \<Longrightarrow> noerr (bind r f)"
  by (cases r) simp_all

lemma noerr_helpers [simp]:
  "noerr (current ts p)" "noerr (previous ts p)" "noerr (isAtEnd ts p)" "noerr (advance ts p)"
  "noerr (check ts k p)"
  by (simp_all add: current_def previous_def isAtEnd_def advance_def check_def noerr_bindI)

lemma synchronize_loop_noerr: "noerr (synchronize_loop ts p)"
proof (induction "length ts - i p" arbitrary: p rule: less_induct)
  case less
  show ?case
    by (subst synchronize_loop.simps)
       (auto intro!: noerr_bindI less.hyps
             dest!: isAtEnd_Ok previous_Ok current_Ok advance_Ok split: if_splits,
        arith)
qed

lemma synchronize_noerr: "noerr (synchronize ts p)"
  by (simp add: synchronize_def noerr_bindI synchronize_loop_noerr)

lemma synchronize_loop_sound:
  "0 < i p \<Longrightarrow> sound ts 0 p (synchronize_loop ts p)"
proof (induction "length ts - i p" arbitrary: p rule: less_induct)
  case less
  note IH = less.hyps
  show ?case
    by (subst synchronize_loop.simps)
       (use less.prems in \<open>intro sound_intros sound_weaken[OF IH]; simp\<close>)
qed

lemma synchronize_sound:
  assumes "i p < length ts" "kind (ts ! i p) \<noteq> TK_EOF"
  shows "sound ts 1 p (synchronize ts p)"
  unfolding synchronize_def
  by (use assms in \<open>intro sound_intros sound_weaken[OF synchronize_loop_sound]; simp\<close>)

lemma synchronize_sound_end:
  assumes "0 < i p"
  shows "sound ts 0 p (synchronize ts p)"
proof (cases "i p < length ts \<and> kind (ts ! i p) \<noteq> TK_EOF")
  case True
  then show ?thesis using synchronize_sound[of p ts] by (auto intro: sound_weaken)
next
  case False
  show ?thesis
  proof (cases "i p < length ts")
    case True
    with False assms show ?thesis
      by (simp add: synchronize_def advance_def isAtEnd_in previous_in
          synchronize_loop_sound)
  next
    case False
    then show ?thesis by (simp add: synchronize_def advance_def isAtEnd_out)
  qed
qed

subsection \<open>Progress of statements\<close>

lemma fnDecl_params_sound: "sound ts 1 p (fnDecl_params ts ps p)"
proof (induction "length ts - i p" arbitrary: p ps rule: less_induct)
  case less
  note IH = less.hyps
  show ?case
    by (subst fnDecl_params.simps) (intro sound_intros sound_weaken[OF IH]; simp)
qed

lemma exprOrAssignStmt_sound:
  "length ts \<le> i p + n \<Longrightarrow> sound ts 1 p (exprOrAssignStmt n ts p)"
  unfolding exprOrAssignStmt_def
  by (intro sound_intros sound_bindI[OF expression_sound];
      simp add: peekIsAssignOp_def peek_def split: if_splits; auto)

lemma letDecl_sound:
  "length ts \<le> i p + n \<Longrightarrow> sound ts 1 p (letDecl n ts p)"
  unfolding letDecl_def
  by (intro sound_intros sound_bindI[OF expression_sound]; simp)

lemma sound_after:
  assumes "moved ts p q" "i q' = i q" "sound ts s' q' r" "s \<le> (i q - i p) + s'"
  shows "sound ts s p r"
proof -
  have "moved ts q q'" using assms(2) by (auto simp: moved_def)
  with assms(1) have m: "moved ts p q'" by (rule moved_trans)
  have "i p \<le> i q" using assms(1) by (simp add: moved_def)
  with assms(2,3,4) m show ?thesis
    by (cases r) (auto intro: moved_trans)
qed

lemma declaration_sound:
  assumes tr: "sound ts 1 p (declaration_try n ts p)"
    and cur: "i p < length ts" "kind (ts ! i p) \<noteq> TK_EOF"
  shows "sound ts 1 p (declaration' n ts p) \<and> noerr (declaration' n ts p)"
proof (cases "declaration_try n ts p")
  case (Err e pe)
  let ?pe = "pe\<lparr>errors := errors pe @ [e]\<rparr>"
  from tr Err have m: "moved ts p pe" by simp
  from tr Err have tok: "i pe < length ts" "token e = ts ! i pe" by simp_all
  have s: "sound ts 1 p (synchronize ts ?pe)"
  proof (cases "i pe = i p")
    case True
    with cur have "sound ts 1 ?pe (synchronize ts ?pe)"
      by (intro synchronize_sound) simp_all
    then show ?thesis by (rule sound_after[OF m, rotated]) simp_all
  next
    case False
    with m have lt: "i p < i pe" by (simp add: moved_def)
    then have "sound ts 0 ?pe (synchronize ts ?pe)"
      by (intro synchronize_sound_end) simp
    then show ?thesis by (rule sound_after[OF m, rotated]) (use lt in simp_all)
  qed
  have "sound ts 1 p (bind (synchronize ts ?pe) (\<lambda>_ p. Ok None p))"
    using s by (cases "synchronize ts ?pe") simp_all
  moreover have "noerr (bind (synchronize ts ?pe) (\<lambda>_ p. Ok None p))"
    by (intro noerr_bindI synchronize_noerr) simp
  ultimately show ?thesis
    by (subst (1 2) declaration'.simps) (simp add: Err)
qed (use tr in \<open>simp_all add: declaration'.simps\<close>)

lemma stmt_sound: "stmt_sound n"
proof (induction n rule: less_induct)
  case (less n)
  have fnDecl': "sound ts 1 p (fnDecl m ts p)"
    and ifStmt': "sound ts 1 p (ifStmt m ts p)"
    and whileStmt': "sound ts 1 p (whileStmt m ts p)"
    and blockStmtAlreadyOpened': "sound ts 1 p (blockStmtAlreadyOpened m ts p)"
    and blockStmts_loop': "sound ts 0 p (blockStmts_loop m ts ss p)"
    if "m < n" "length ts \<le> i p + m" for m ts p ss
    using less.IH[OF that(1)] that(2) unfolding stmt_sound_def by blast+
  have statement: "sound ts 1 p (statement n ts p)" if "length ts \<le> i p + n" for ts p
    by (subst statement.simps)
       (use that in \<open>intro sound_intros sound_weaken[OF ifStmt'] sound_weaken[OF whileStmt']
          sound_weaken[OF blockStmtAlreadyOpened'] sound_weaken[OF exprOrAssignStmt_sound];
          simp\<close>)
  have decl_try: "sound ts 1 p (declaration_try n ts p)"
    if "length ts \<le> i p + n" for ts p
    by (subst declaration_try.simps)
       (use that in \<open>intro sound_intros sound_weaken[OF fnDecl'] sound_weaken[OF letDecl_sound]
          sound_weaken[OF statement]; simp\<close>)
  have decl: "sound ts 1 p (declaration' n ts p)"
    and decl_noerr: "noerr (declaration' n ts p)"
    if "length ts \<le> i p + n" "i p < length ts" "kind (ts ! i p) \<noteq> TK_EOF" for ts p
    using declaration_sound[OF decl_try[OF that(1)] that(2,3)] by simp_all
  have blockStmts_loop: "sound ts 0 p (blockStmts_loop n ts ss p)"
    if "length ts \<le> i p + n" for ts p ss
    by (subst blockStmts_loop.simps)
       (use that in \<open>intro sound_intros sound_bindI[OF decl]
          sound_weaken[OF blockStmts_loop']; simp\<close>)
  have blockStmtsAlreadyOpened: "sound ts 1 p (blockStmtsAlreadyOpened n ts p)"
    if "length ts \<le> i p + n" for ts p
    by (subst blockStmtsAlreadyOpened.simps)
       (use that in \<open>intro sound_intros sound_bindI[OF blockStmts_loop]; simp\<close>)
  have blockStmtAlreadyOpened: "sound ts 1 p (blockStmtAlreadyOpened n ts p)"
    if "length ts \<le> i p + n" for ts p
    by (subst blockStmtAlreadyOpened.simps)
       (use that in \<open>intro sound_intros sound_bindI[OF blockStmtsAlreadyOpened]; simp\<close>)
  have fnDecl: "sound ts 1 p (fnDecl n ts p)" if "length ts \<le> i p + n" for ts p
    by (subst fnDecl.simps)
       (use that in \<open>intro sound_intros sound_bindI[OF fnDecl_params_sound]
          sound_bindI[OF blockStmtsAlreadyOpened]; simp\<close>)
  have ifStmt: "sound ts 1 p (ifStmt n ts p)" if "length ts \<le> i p + n" for ts p
    by (subst ifStmt.simps)
       (use that in \<open>intro sound_intros sound_bindI[OF expression_sound]
          sound_bindI[OF statement]; simp\<close>)
  have whileStmt: "sound ts 1 p (whileStmt n ts p)" if "length ts \<le> i p + n" for ts p
    by (subst whileStmt.simps)
       (use that in \<open>intro sound_intros sound_bindI[OF expression_sound]
          sound_bindI[OF statement]; simp\<close>)
  show ?case
    unfolding stmt_sound_def
    using statement decl_try decl decl_noerr blockStmts_loop
      blockStmtsAlreadyOpened blockStmtAlreadyOpened fnDecl ifStmt whileStmt
    by simp
qed

lemma declaration_progress:
  assumes "length ts \<le> i p + n" "i p < length ts" "kind (ts ! i p) \<noteq> TK_EOF"
  shows "sound ts 1 p (declaration' n ts p)" "noerr (declaration' n ts p)"
  using stmt_sound[of n] assms unfolding stmt_sound_def by blast+

lemma parseProgram_loop_sound:
  "length ts \<le> i p + n \<Longrightarrow> sound ts 0 p (parseProgram_loop n ts out p)"
proof (induction n arbitrary: p out rule: less_induct)
  case (less n)
  note IH = less.IH
  show ?case
    by (subst parseProgram_loop.simps)
       (use less.prems in \<open>intro sound_intros sound_bindI[OF declaration_progress(1)]
          sound_weaken[OF IH]; simp\<close>)
qed

lemma bind_eq_Ok:
  "bind r f = Ok v p' \<Longrightarrow> \<exists>u q. r = Ok u q \<and> f u q = Ok v p'"
  by (cases r) simp_all

lemma bind_eq_Err:
  "bind r f = Err e p' \<Longrightarrow> r = Err e p' \<or> (\<exists>u q. r = Ok u q \<and> f u q = Err e p')"
  by (cases r) simp_all

lemma parseProgram_loop_Ok:
  "parseProgram_loop n ts out p = Ok out' p' \<Longrightarrow> i p' < length ts \<and> kind (ts ! i p') = TK_EOF"
proof (induction n arbitrary: p out)
  case 0
  then show ?case
    by (subst (asm) parseProgram_loop.simps)
       (auto dest!: bind_eq_Ok isAtEnd_Ok split: if_splits)
next
  case (Suc n)
  from Suc.prems show ?case
    by (subst (asm) parseProgram_loop.simps)
       (auto dest!: bind_eq_Ok isAtEnd_Ok dest: Suc.IH split: if_splits)
qed


lemma declaration_noerr: "noerr (declaration' n ts p)"
  by (subst declaration'.simps)
     (auto split: result.splits intro!: noerr_bindI synchronize_noerr)

lemma parseProgram_loop_noerr:
  "noerr (parseProgram_loop n ts out p)"
proof (induction n arbitrary: p out)
  case 0
  show ?case
    by (subst parseProgram_loop.simps) (auto intro!: noerr_bindI declaration_noerr)
next
  case (Suc n)
  show ?case
    by (subst parseProgram_loop.simps) (auto intro!: noerr_bindI declaration_noerr Suc.IH)
qed

text \<open>
  Claim C9. On every token array whose last element is the end-of-input token,
  \<open>parseProgram\<close> returns normally: the run is not cut off by its bound (one unit per
  token suffices, so the loops of the source terminate), it raises neither a parse error
  nor a fatal error, and it stops at an end-of-input token inside the array.
\<close>

theorem parseProgram_terminates:
  assumes "ts \<noteq> []" and "kind (last ts) = TK_EOF"
  shows "\<exists>out P. parseProgram ts = Ok out P \<and> i P < length ts \<and> kind (ts ! i P) = TK_EOF"
proof -
  let ?p0 = "\<lparr>i = 0, errors = []\<rparr>"
  have s: "sound ts 0 ?p0 (parseProgram ts)"
    unfolding parseProgram_def by (rule parseProgram_loop_sound) simp
  have ne: "noerr (parseProgram ts)"
    unfolding parseProgram_def by (rule parseProgram_loop_noerr)
  show ?thesis
  proof (cases "parseProgram ts")
    case (Ok out P)
    then show ?thesis
      using parseProgram_loop_Ok[of "length ts" ts "[]" ?p0 out P]
      by (simp add: parseProgram_def)
  next
    case (Err e P)
    with ne show ?thesis by simp
  next
    case (Fatal m P)
    with s have "moved ts ?p0 P" "length ts \<le> i P" by simp_all
    then have "length ts - 1 < i P \<longrightarrow> kind (ts ! (length ts - 1)) \<noteq> TK_EOF"
      unfolding moved_def by simp
    moreover have "length ts - 1 < i P"
      using assms(1) \<open>length ts \<le> i P\<close> by (cases ts) simp_all
    ultimately have "kind (ts ! (length ts - 1)) \<noteq> TK_EOF" by simp
    with assms show ?thesis by (simp add: last_conv_nth)
  next
    case OutOfFuel
    with s show ?thesis by simp
  qed
qed

theorem parseProgram_terminates_witness:
  "\<exists>out P. parseProgram [tk TK_IDENT ''x'', tk TK_IDENT ''y'', tk TK_EOF []] = Ok out P \<and>
     i P < length [tk TK_IDENT ''x'', tk TK_IDENT ''y'', tk TK_EOF []] \<and>
     kind ([tk TK_IDENT ''x'', tk TK_IDENT ''y'', tk TK_EOF []] ! i P) = TK_EOF"
  by (rule parseProgram_terminates) (simp_all add: tk_def)

subsection \<open>The driver\<close>

lemma run_tokens_errors:
  assumes "parseProgram toks = Ok ast P" "errors P \<noteq> []"
  shows "run_tokens toks = map report (errors P) @ [Exit 1]"
  using assms by (simp add: run_tokens_def)

lemma report_neq_run [simp]: "report e \<noteq> RunInterpreter prog" "RunInterpreter prog \<noteq> report e"
  by (simp_all add: report_def)

lemma no_run_in_reports: "RunInterpreter prog \<notin> set (map report es @ [Exit 1])"
  by auto

lemma sample_xy:
  "parseProgram [tk TK_IDENT ''x'', tk TK_IDENT ''y'', tk TK_EOF []] =
     Ok [] \<lparr>i = 2, errors = [error (tk TK_IDENT ''y'') ''Expected ';' after expression.'']\<rparr>"
  by code_simp

text \<open>
  Claim C7. When the parser returns with a non-empty error list, the driver prints one
  report per recorded error, in order, then exits with status 1, and no interpreter run is
  among its actions.
\<close>

theorem driver_parse_error_gate:
  assumes "args = a # rest" and "a \<noteq> []" and "files a = Some src"
    and "parseProgram (lexer src) = Ok ast P" and "errors P \<noteq> []"
  shows "lim lexer files args = map report (errors P) @ [Exit 1] \<and>
         (\<forall>prog. RunInterpreter prog \<notin> set (lim lexer files args))"
proof -
  have "lim lexer files args = run_tokens (lexer src)"
    using assms(1-3) by (simp add: lim_def)
  also have "\<dots> = map report (errors P) @ [Exit 1]"
    using assms(4,5) by (rule run_tokens_errors)
  finally show ?thesis using no_run_in_reports by simp
qed

theorem driver_parse_error_gate_witness:
  "lim (\<lambda>_. [tk TK_IDENT ''x'', tk TK_IDENT ''y'', tk TK_EOF []]) (\<lambda>_. Some []) [''a.lim''] =
     [report (error (tk TK_IDENT ''y'') ''Expected ';' after expression.''), Exit 1] \<and>
   (\<forall>prog. RunInterpreter prog \<notin>
      set (lim (\<lambda>_. [tk TK_IDENT ''x'', tk TK_IDENT ''y'', tk TK_EOF []]) (\<lambda>_. Some [])
             [''a.lim'']))"
  using driver_parse_error_gate[of "[''a.lim'']" "''a.lim''" "[]" "\<lambda>_. Some []" "[]"
      "\<lambda>_. [tk TK_IDENT ''x'', tk TK_IDENT ''y'', tk TK_EOF []]" "[]"
      "\<lparr>i = 2, errors = [error (tk TK_IDENT ''y'') ''Expected ';' after expression.'']\<rparr>"]
    sample_xy
  by simp

subsection \<open>Fatal errors\<close>

lemma declaration_Fatal:
  "declaration_try n ts p = Fatal m p' \<Longrightarrow> declaration' n ts p = Fatal m p'"
  by (subst declaration'.simps) simp

lemma parseProgram_loop_Fatal:
  assumes "isAtEnd ts p = Ok False p" "declaration' n ts p = Fatal m p'"
  shows "parseProgram_loop n ts out p = Fatal m p'"
  using assms by (subst parseProgram_loop.simps) simp

lemma parseProgram_no_sentinel:
  assumes "\<forall>t \<in> set ts. kind t \<noteq> TK_EOF"
  shows "\<exists>m P. parseProgram ts = Fatal m P \<and> length ts \<le> i P"
proof -
  let ?p0 = "\<lparr>i = 0, errors = []\<rparr>"
  have s: "sound ts 0 ?p0 (parseProgram ts)"
    unfolding parseProgram_def by (rule parseProgram_loop_sound) simp
  have ne: "noerr (parseProgram ts)"
    unfolding parseProgram_def by (rule parseProgram_loop_noerr)
  show ?thesis
  proof (cases "parseProgram ts")
    case (Ok out P)
    then have "i P < length ts \<and> kind (ts ! i P) = TK_EOF"
      using parseProgram_loop_Ok[of "length ts" ts "[]" ?p0 out P]
      by (simp add: parseProgram_def)
    with assms show ?thesis by (metis nth_mem)
  next
    case (Err e P)
    with ne show ?thesis by simp
  next
    case (Fatal m P)
    with s show ?thesis by simp
  next
    case OutOfFuel
    with s show ?thesis by simp
  qed
qed

text \<open>
  Claim C8. Reading the token at an index that holds no token raises the fatal error
  ``missing EOF token'', not a parse error. \<open>declaration'\<close> hands a fatal error of its body
  on unchanged (only a \<open>ParseError\<close> is recorded and recovered from), and so does the loop
  of \<open>parseProgram\<close>. On a token array without the end-of-input sentinel the whole parse
  therefore ends in a fatal error instead of returning with recorded errors.
\<close>

theorem fatal_error_not_recovered:
  "(length ts \<le> i p \<longrightarrow>
      current ts p = Fatal ''Parser invariant violated: missing EOF token'' p) \<and>
   (declaration_try n ts p = Fatal m p' \<longrightarrow> declaration' n ts p = Fatal m p') \<and>
   (isAtEnd ts p = Ok False p \<and> declaration' n ts p = Fatal m p' \<longrightarrow>
      parseProgram_loop n ts out p = Fatal m p') \<and>
   ((\<forall>t \<in> set ts. kind t \<noteq> TK_EOF) \<longrightarrow> (\<exists>m P. parseProgram ts = Fatal m P \<and> length ts \<le> i P))"
  using current_out declaration_Fatal parseProgram_loop_Fatal parseProgram_no_sentinel
  by blast

lemma sample_x_Fatal:
  "declaration_try 1 [tk TK_IDENT ''x''] \<lparr>i = 0, errors = []\<rparr> =
     Fatal ''Parser invariant violated: missing EOF token'' \<lparr>i = 1, errors = []\<rparr>"
  "isAtEnd [tk TK_IDENT ''x''] \<lparr>i = 0, errors = []\<rparr> = Ok False \<lparr>i = 0, errors = []\<rparr>"
  by code_simp+

theorem fatal_error_not_recovered_witness:
  "current [tk TK_IDENT ''x''] \<lparr>i = 1, errors = []\<rparr> =
     Fatal ''Parser invariant violated: missing EOF token'' \<lparr>i = 1, errors = []\<rparr> \<and>
   declaration' 1 [tk TK_IDENT ''x''] \<lparr>i = 0, errors = []\<rparr> =
     Fatal ''Parser invariant violated: missing EOF token'' \<lparr>i = 1, errors = []\<rparr> \<and>
   parseProgram_loop 1 [tk TK_IDENT ''x''] [] \<lparr>i = 0, errors = []\<rparr> =
     Fatal ''Parser invariant violated: missing EOF token'' \<lparr>i = 1, errors = []\<rparr> \<and>
   (\<exists>m P. parseProgram [tk TK_IDENT ''x''] = Fatal m P \<and> length [tk TK_IDENT ''x''] \<le> i P)"
proof -
  note t = fatal_error_not_recovered[of "[tk TK_IDENT ''x'']" _ 1 _ _ "[]"]
  have a: "current [tk TK_IDENT ''x''] \<lparr>i = 1, errors = []\<rparr> =
     Fatal ''Parser invariant violated: missing EOF token'' \<lparr>i = 1, errors = []\<rparr>"
    using t[of "\<lparr>i = 1, errors = []\<rparr>"] by simp
  have b: "declaration' 1 [tk TK_IDENT ''x''] \<lparr>i = 0, errors = []\<rparr> =
     Fatal ''Parser invariant violated: missing EOF token'' \<lparr>i = 1, errors = []\<rparr>"
    using t[of "\<lparr>i = 0, errors = []\<rparr>"] sample_x_Fatal(1) by blast
  have c: "parseProgram_loop 1 [tk TK_IDENT ''x''] [] \<lparr>i = 0, errors = []\<rparr> =
     Fatal ''Parser invariant violated: missing EOF token'' \<lparr>i = 1, errors = []\<rparr>"
    using t[of "\<lparr>i = 0, errors = []\<rparr>"] sample_x_Fatal(2) b by blast
  have d: "\<exists>m P. parseProgram [tk TK_IDENT ''x''] = Fatal m P \<and> length [tk TK_IDENT ''x''] \<le> i P"
    using t[of "\<lparr>i = 0, errors = []\<rparr>"] by (simp add: tk_def)
  from a b c d show ?thesis by blast
qed

subsection \<open>A larger bound changes nothing\<close>

lemma ext_refl: "ext r r"
  by (simp add: ext_def)

lemma ext_bind:
  assumes "ext r r'" and "\<And>v p. ext (f v p) (f' v p)"
  shows "ext (bind r f) (bind r' f')"
proof (cases r)
  case (Ok v p)
  with assms(1) have "r' = Ok v p" by (simp add: ext_def)
  with Ok assms(2)[of v p] show ?thesis by (simp add: ext_def)
qed (use assms(1) in \<open>simp_all add: ext_def\<close>)

lemma ext_if:
  "(c \<Longrightarrow> ext a a') \<Longrightarrow> (\<not> c \<Longrightarrow> ext b b') \<Longrightarrow> ext (if c then a else b) (if c then a' else b')"
  by simp

lemma ext_fuel:
  assumes "n \<le> m" and "\<And>n' m'. n = Suc n' \<Longrightarrow> m = Suc m' \<Longrightarrow> n' \<le> m' \<Longrightarrow> ext (f n') (f' m')"
  shows "ext (case n of 0 \<Rightarrow> OutOfFuel | Suc k \<Rightarrow> f k) (case m of 0 \<Rightarrow> OutOfFuel | Suc k \<Rightarrow> f' k)"
  using assms by (cases n; cases m) (simp_all add: ext_def)


lemmas ext_intros = ext_bind ext_if ext_fuel ext_refl

lemma expr_ext: "expr_ext n"
proof (induction n rule: less_induct)
  case (less n)
  have expression': "ext (expression k ts p) (expression m ts p)"
    and logicAnd': "ext (logicAnd k ts p) (logicAnd m ts p)"
    and equality': "ext (equality k ts p) (equality m ts p)"
    and comparison': "ext (comparison k ts p) (comparison m ts p)"
    and term'': "ext (term' k ts p) (term' m ts p)"
    and factor': "ext (factor k ts p) (factor m ts p)"
    and unary': "ext (unary k ts p) (unary m ts p)"
    and logicOr_loop': "ext (logicOr_loop k ts e p) (logicOr_loop m ts e p)"
    and logicAnd_loop': "ext (logicAnd_loop k ts e p) (logicAnd_loop m ts e p)"
    and equality_loop': "ext (equality_loop k ts e p) (equality_loop m ts e p)"
    and comparison_loop': "ext (comparison_loop k ts e p) (comparison_loop m ts e p)"
    and term_loop': "ext (term_loop k ts e p) (term_loop m ts e p)"
    and factor_loop': "ext (factor_loop k ts e p) (factor_loop m ts e p)"
    and call_loop': "ext (call_loop k ts e p) (call_loop m ts e p)"
    and arguments': "ext (arguments k ts a p) (arguments m ts a p)"
    if "k < n" "k \<le> m" for k m ts p e a
    using less.IH[OF that(1)] that(2) unfolding expr_ext_def by blast+
  have primary: "ext (primary n ts p) (primary m ts p)" if "n \<le> m" for m ts p
    unfolding primary.simps[of n ts p] primary.simps[of m ts p]
    by (use that in \<open>intro ext_intros expression'; simp\<close>)
  have call_loop: "ext (call_loop n ts e p) (call_loop m ts e p)" if "n \<le> m" for m ts p e
    unfolding call_loop.simps[of n ts e p] call_loop.simps[of m ts e p]
    by (use that in \<open>intro ext_intros arguments' call_loop'; simp\<close>)
  have call: "ext (call n ts p) (call m ts p)" if "n \<le> m" for m ts p
    unfolding call.simps[of n ts p] call.simps[of m ts p]
    by (use that in \<open>intro ext_intros primary call_loop; simp\<close>)
  have unary: "ext (unary n ts p) (unary m ts p)" if "n \<le> m" for m ts p
    unfolding unary.simps[of n ts p] unary.simps[of m ts p]
    by (use that in \<open>intro ext_intros unary' call; simp\<close>)
  have factor_loop: "ext (factor_loop n ts e p) (factor_loop m ts e p)" if "n \<le> m" for m ts p e
    unfolding factor_loop.simps[of n ts e p] factor_loop.simps[of m ts e p]
    by (use that in \<open>intro ext_intros unary' factor_loop'; simp\<close>)
  have factor: "ext (factor n ts p) (factor m ts p)" if "n \<le> m" for m ts p
    unfolding factor.simps[of n ts p] factor.simps[of m ts p]
    by (use that in \<open>intro ext_intros unary factor_loop; simp\<close>)
  have term_loop: "ext (term_loop n ts e p) (term_loop m ts e p)" if "n \<le> m" for m ts p e
    unfolding term_loop.simps[of n ts e p] term_loop.simps[of m ts e p]
    by (use that in \<open>intro ext_intros factor' term_loop'; simp\<close>)
  have term_n: "ext (term' n ts p) (term' m ts p)" if "n \<le> m" for m ts p
    unfolding term'.simps[of n ts p] term'.simps[of m ts p]
    by (use that in \<open>intro ext_intros factor term_loop; simp\<close>)
  have comparison_loop: "ext (comparison_loop n ts e p) (comparison_loop m ts e p)"
    if "n \<le> m" for m ts p e
    unfolding comparison_loop.simps[of n ts e p] comparison_loop.simps[of m ts e p]
    by (use that in \<open>intro ext_intros term'' comparison_loop'; simp\<close>)
  have comparison: "ext (comparison n ts p) (comparison m ts p)" if "n \<le> m" for m ts p
    unfolding comparison.simps[of n ts p] comparison.simps[of m ts p]
    by (use that in \<open>intro ext_intros term_n comparison_loop; simp\<close>)
  have equality_loop: "ext (equality_loop n ts e p) (equality_loop m ts e p)"
    if "n \<le> m" for m ts p e
    unfolding equality_loop.simps[of n ts e p] equality_loop.simps[of m ts e p]
    by (use that in \<open>intro ext_intros comparison' equality_loop'; simp\<close>)
  have equality: "ext (equality n ts p) (equality m ts p)" if "n \<le> m" for m ts p
    unfolding equality.simps[of n ts p] equality.simps[of m ts p]
    by (use that in \<open>intro ext_intros comparison equality_loop; simp\<close>)
  have logicAnd_loop: "ext (logicAnd_loop n ts e p) (logicAnd_loop m ts e p)"
    if "n \<le> m" for m ts p e
    unfolding logicAnd_loop.simps[of n ts e p] logicAnd_loop.simps[of m ts e p]
    by (use that in \<open>intro ext_intros equality' logicAnd_loop'; simp\<close>)
  have logicAnd: "ext (logicAnd n ts p) (logicAnd m ts p)" if "n \<le> m" for m ts p
    unfolding logicAnd.simps[of n ts p] logicAnd.simps[of m ts p]
    by (use that in \<open>intro ext_intros equality logicAnd_loop; simp\<close>)
  have logicOr_loop: "ext (logicOr_loop n ts e p) (logicOr_loop m ts e p)"
    if "n \<le> m" for m ts p e
    unfolding logicOr_loop.simps[of n ts e p] logicOr_loop.simps[of m ts e p]
    by (use that in \<open>intro ext_intros logicAnd' logicOr_loop'; simp\<close>)
  have logicOr: "ext (logicOr n ts p) (logicOr m ts p)" if "n \<le> m" for m ts p
    unfolding logicOr.simps[of n ts p] logicOr.simps[of m ts p]
    by (use that in \<open>intro ext_intros logicAnd logicOr_loop; simp\<close>)
  have expression: "ext (expression n ts p) (expression m ts p)" if "n \<le> m" for m ts p
    unfolding expression.simps[of n ts p] expression.simps[of m ts p]
    by (rule logicOr[OF that])
  have arguments: "ext (arguments n ts a p) (arguments m ts a p)" if "n \<le> m" for m ts p a
    unfolding arguments.simps[of n ts a p] arguments.simps[of m ts a p]
    by (use that in \<open>intro ext_intros expression arguments'; simp\<close>)
  show ?case
    unfolding expr_ext_def
    using primary call_loop call unary factor_loop factor term_loop term_n comparison_loop
      comparison equality_loop equality logicAnd_loop logicAnd logicOr_loop logicOr expression
      arguments
    by simp
qed

lemma expression_ext: "n \<le> m \<Longrightarrow> ext (expression n ts p) (expression m ts p)"
  using expr_ext[of n] unfolding expr_ext_def by blast




lemma ext_sound_eq: "ext r r' \<Longrightarrow> sound ts s p r \<Longrightarrow> r' = r"
  by (cases r) (simp_all add: ext_def)

text \<open>Any two bounds that cover the rest of the array give the same run.\<close>

lemma expression_fuel:
  assumes "length ts \<le> i p + n" "length ts \<le> i p + m"
  shows "expression n ts p = expression m ts p"
proof (cases "n \<le> m")
  case True
  have "expression m ts p = expression n ts p"
    by (rule ext_sound_eq[OF expression_ext[OF True] expression_sound[OF assms(1)]])
  then show ?thesis by (rule sym)
next
  case False
  then have le: "m \<le> n" by simp
  show ?thesis
    by (rule ext_sound_eq[OF expression_ext[OF le] expression_sound[OF assms(2)]])
qed

subsection \<open>Recovery\<close>

lemma synchronize_loop_resume:
  assumes "0 < i q" "i q \<le> e" "e < length ts" "kind (ts ! e) = TK_EOF"
  shows "\<exists>k. synchronize_loop ts q = Ok () (q\<lparr>i := k\<rparr>) \<and> i q \<le> k \<and> k \<le> e \<and>
             (\<forall>j. i q \<le> j \<and> j < k \<longrightarrow> \<not> sync_stop ts j) \<and> sync_stop ts k"
  using assms
proof (induction "e - i q" arbitrary: q rule: less_induct)
  case less
  have inside: "i q < length ts" using less.prems by simp
  show ?case
  proof (cases "sync_stop ts (i q)")
    case True
    with inside less.prems(1) have "synchronize_loop ts q = Ok () q"
      by (subst synchronize_loop.simps)
         (auto simp: sync_stop_def isAtEnd_in previous_in current_in)
    then have "synchronize_loop ts q = Ok () (q\<lparr>i := i q\<rparr>)" by simp
    with True less.prems show ?thesis by (intro exI[of _ "i q"]) auto
  next
    case False
    let ?q = "q\<lparr>i := i q + 1\<rparr>"
    from False have ne: "kind (ts ! i q) \<noteq> TK_EOF" by (simp add: sync_stop_def)
    with less.prems have lt: "i q < e" by (cases "i q = e") auto
    from False inside less.prems(1) have step: "synchronize_loop ts q = synchronize_loop ts ?q"
      by (subst synchronize_loop.simps)
         (auto simp: sync_stop_def isAtEnd_in previous_in current_in advance_in)
    have "\<exists>k. synchronize_loop ts ?q = Ok () (?q\<lparr>i := k\<rparr>) \<and> i ?q \<le> k \<and> k \<le> e \<and>
             (\<forall>j. i ?q \<le> j \<and> j < k \<longrightarrow> \<not> sync_stop ts j) \<and> sync_stop ts k"
      using lt less.prems by (intro less.hyps) simp_all
    then obtain k where k: "synchronize_loop ts ?q = Ok () (?q\<lparr>i := k\<rparr>)" "i q + 1 \<le> k"
      "k \<le> e" "\<forall>j. i q + 1 \<le> j \<and> j < k \<longrightarrow> \<not> sync_stop ts j" "sync_stop ts k"
      by auto
    have "\<not> sync_stop ts j" if "i q \<le> j \<and> j < k" for j
      using that k(4) False by (cases "j = i q") auto
    with k step show ?thesis by (intro exI[of _ k]) simp
  qed
qed

lemma synchronize_resume:
  assumes "i q \<le> e" "e < length ts" "kind (ts ! e) = TK_EOF"
    and "0 < i q \<or> kind (ts ! i q) \<noteq> TK_EOF"
  shows "\<exists>k. synchronize ts q = Ok () (q\<lparr>i := k\<rparr>) \<and> resume_point ts (i q) k \<and> k \<le> e"
proof (cases "kind (ts ! i q) = TK_EOF")
  case True
  with assms have "synchronize ts q = Ok () q"
    by (auto simp: synchronize_def advance_def isAtEnd_in previous_in
          synchronize_loop.simps[of ts q])
  then have "synchronize ts q = Ok () (q\<lparr>i := i q\<rparr>)" by simp
  with True assms(1) show ?thesis by (intro exI[of _ "i q"]) (simp add: resume_point_def)
next
  case False
  let ?q = "q\<lparr>i := i q + 1\<rparr>"
  from False assms have lt: "i q < e" by (cases "i q = e") auto
  with assms False have step: "synchronize ts q = synchronize_loop ts ?q"
    by (simp add: synchronize_def advance_in)
  have "\<exists>k. synchronize_loop ts ?q = Ok () (?q\<lparr>i := k\<rparr>) \<and> i ?q \<le> k \<and> k \<le> e \<and>
             (\<forall>j. i ?q \<le> j \<and> j < k \<longrightarrow> \<not> sync_stop ts j) \<and> sync_stop ts k"
    using lt assms by (intro synchronize_loop_resume) simp_all
  then obtain k where k: "synchronize_loop ts ?q = Ok () (?q\<lparr>i := k\<rparr>)" "i q + 1 \<le> k"
    "k \<le> e" "\<forall>j. i q + 1 \<le> j \<and> j < k \<longrightarrow> \<not> sync_stop ts j" "sync_stop ts k"
    by auto
  from k(2,4,5) False have "resume_point ts (i q) k"
    by (auto simp: resume_point_def)
  with k step show ?thesis by (intro exI[of _ k]) simp
qed

lemma moved_below_eof:
  assumes "moved ts p q" "i p \<le> e" "kind (ts ! e) = TK_EOF"
  shows "i q \<le> e"
proof (rule ccontr)
  assume "\<not> i q \<le> e"
  with assms(1,2) have "kind (ts ! e) \<noteq> TK_EOF" by (simp add: moved_def)
  with assms(3) show False by simp
qed

lemma declaration_try_Err:
  assumes "i p < length ts" "kind (ts ! i p) \<noteq> TK_EOF"
    and "i p \<le> e" "e < length ts" "kind (ts ! e) = TK_EOF"
    and "length ts \<le> i p + n"
    and "declaration_try n ts p = Err err pe"
  shows "\<exists>k. declaration' n ts p = Ok None (pe\<lparr>i := k, errors := errors pe @ [err]\<rparr>) \<and>
             token err = ts ! i pe \<and> resume_point ts (i pe) k \<and> k \<le> e"
proof -
  let ?pe = "pe\<lparr>errors := errors pe @ [err]\<rparr>"
  have s: "sound ts 1 p (declaration_try n ts p)"
    using stmt_sound[of n] assms(6) unfolding stmt_sound_def by blast
  with assms(7) have m: "moved ts p pe" and tok: "token err = ts ! i pe" by simp_all
  from m assms(3,5) have le: "i pe \<le> e" by (rule moved_below_eof)
  have start: "0 < i pe \<or> kind (ts ! i pe) \<noteq> TK_EOF"
  proof (cases "i pe = i p")
    case True
    with assms(2) show ?thesis by simp
  next
    case False
    with m show ?thesis by (simp add: moved_def)
  qed
  have "\<exists>k. synchronize ts ?pe = Ok () (?pe\<lparr>i := k\<rparr>) \<and> resume_point ts (i ?pe) k \<and> k \<le> e"
    using le assms(4,5) start by (intro synchronize_resume) simp_all
  then obtain k where k: "synchronize ts ?pe = Ok () (?pe\<lparr>i := k\<rparr>)"
    "resume_point ts (i pe) k" "k \<le> e"
    by auto
  have "declaration' n ts p = Ok None (?pe\<lparr>i := k\<rparr>)"
    by (subst declaration'.simps) (simp add: assms(7) k(1))
  moreover have "?pe\<lparr>i := k\<rparr> = pe\<lparr>i := k, errors := errors pe @ [err]\<rparr>" by simp
  ultimately show ?thesis using tok k(2,3) by (intro exI[of _ k]) simp
qed

lemma sample_recovery:
  "declaration_try 3 [tk TK_IDENT ''x'', tk TK_IDENT ''y'', tk TK_EOF []] \<lparr>i = 0, errors = []\<rparr> =
     Err (error (tk TK_IDENT ''y'') ''Expected ';' after expression.'') \<lparr>i = 1, errors = []\<rparr>"
  "declaration' 3 [tk TK_IDENT ''x'', tk TK_IDENT ''y'', tk TK_EOF []] \<lparr>i = 0, errors = []\<rparr> =
     Ok None \<lparr>i = 2, errors = [error (tk TK_IDENT ''y'') ''Expected ';' after expression.'']\<rparr>"
  by code_simp+

text \<open>
  Claim C3, as the code has it. A parse error inside a declaration, at a statement
  position that is not at end-of-input of an array that ends with the end-of-input token,
  is recorded (its token is the token the parser stands at, with the message) behind the
  errors recorded so far; the declaration returns no statement; and parsing resumes at
  the index that \<open>resume_point\<close> describes: an offending end-of-input token is kept, any
  other offending token is discarded, and further tokens are discarded until a \<^verbatim>\<open>;\<close> has
  just been consumed, or the next token is one of \<^verbatim>\<open>let\<close>, \<^verbatim>\<open>func\<close>, \<^verbatim>\<open>if\<close>, \<^verbatim>\<open>while\<close>, or the
  next token is end-of-input.
\<close>

theorem declaration_recovery:
  assumes "i p < length ts" and "kind (ts ! i p) \<noteq> TK_EOF"
    and "kind (last ts) = TK_EOF"
    and "length ts \<le> i p + n"
    and "declaration_try n ts p = Err err pe"
  shows "\<exists>k. declaration' n ts p = Ok None (pe\<lparr>i := k, errors := errors pe @ [err]\<rparr>) \<and>
             token err = ts ! i pe \<and> resume_point ts (i pe) k \<and> k < length ts"
proof -
  have ne: "ts \<noteq> []" using assms(1) by auto
  have "\<exists>k. declaration' n ts p = Ok None (pe\<lparr>i := k, errors := errors pe @ [err]\<rparr>) \<and>
             token err = ts ! i pe \<and> resume_point ts (i pe) k \<and> k \<le> length ts - 1"
    using assms ne by (intro declaration_try_Err) (simp_all add: last_conv_nth)
  then show ?thesis using ne by (auto simp: less_eq_Suc_le simp flip: length_greater_0_conv)
qed

theorem declaration_recovery_witness:
  "\<exists>k. declaration' 3 [tk TK_IDENT ''x'', tk TK_IDENT ''y'', tk TK_EOF []] \<lparr>i = 0, errors = []\<rparr> =
          Ok None (\<lparr>i = 1, errors = []\<rparr>\<lparr>i := k, errors := errors \<lparr>i = 1, errors = []\<rparr> @
             [error (tk TK_IDENT ''y'') ''Expected ';' after expression.'']\<rparr>) \<and>
        token (error (tk TK_IDENT ''y'') ''Expected ';' after expression.'') =
          [tk TK_IDENT ''x'', tk TK_IDENT ''y'', tk TK_EOF []] ! i \<lparr>i = 1, errors = []\<rparr> \<and>
        resume_point [tk TK_IDENT ''x'', tk TK_IDENT ''y'', tk TK_EOF []]
          (i \<lparr>i = 1, errors = []\<rparr>) k \<and>
        k < length [tk TK_IDENT ''x'', tk TK_IDENT ''y'', tk TK_EOF []]"
  by (rule declaration_recovery[OF _ _ _ _ sample_recovery(1)]) (simp_all add: tk_def)

text \<open>
  The claim as worded fails at end-of-input: on \<^verbatim>\<open>x y\<close> the error is at \<^verbatim>\<open>y\<close>, which is
  discarded; recovery then stops at the end-of-input token, where no \<^verbatim>\<open>;\<close> has just been
  consumed and the next token is none of \<^verbatim>\<open>let\<close>, \<^verbatim>\<open>func\<close>, \<^verbatim>\<open>if\<close>, \<^verbatim>\<open>while\<close>.
\<close>

theorem declaration_recovery_counterexample:
  "declaration' 3 [tk TK_IDENT ''x'', tk TK_IDENT ''y'', tk TK_EOF []] \<lparr>i = 0, errors = []\<rparr> =
     Ok None \<lparr>i = 2, errors = [error (tk TK_IDENT ''y'') ''Expected ';' after expression.'']\<rparr> \<and>
   kind ([tk TK_IDENT ''x'', tk TK_IDENT ''y'', tk TK_EOF []] ! (2 - 1)) \<noteq> TK_SEMICOLON \<and>
   kind ([tk TK_IDENT ''x'', tk TK_IDENT ''y'', tk TK_EOF []] ! 2) \<noteq> TK_LET \<and>
   kind ([tk TK_IDENT ''x'', tk TK_IDENT ''y'', tk TK_EOF []] ! 2) \<noteq> TK_FUNC \<and>
   kind ([tk TK_IDENT ''x'', tk TK_IDENT ''y'', tk TK_EOF []] ! 2) \<noteq> TK_IF \<and>
   kind ([tk TK_IDENT ''x'', tk TK_IDENT ''y'', tk TK_EOF []] ! 2) \<noteq> TK_WHILE"
  using sample_recovery(2) by (simp add: tk_def)

subsection \<open>Assignment or expression statement\<close>

lemma peekIsAssignOp_iff:
  "peekIsAssignOp ts p \<longleftrightarrow>
     i p + 1 < length ts \<and>
     kind (ts ! (i p + 1)) \<in>
       {TK_ASSIGN, TK_PLUS_ASSIGN, TK_MINUS_ASSIGN, TK_STAR_ASSIGN, TK_SLASH_ASSIGN}"
  by (auto simp: peekIsAssignOp_def peek_def)

lemma statement_ident:
  assumes "i p < length ts" "kind (ts ! i p) = TK_IDENT"
  shows "statement n ts p = exprOrAssignStmt n ts p"
  using assms by (subst statement.simps) (simp add: match_in)

lemma assignOpFromToken_Ok:
  assumes "kind t \<in> {TK_ASSIGN, TK_PLUS_ASSIGN, TK_MINUS_ASSIGN, TK_STAR_ASSIGN, TK_SLASH_ASSIGN}"
  shows "\<exists>op. assignOpFromToken t p = Ok op p"
  using assms by (auto simp: assignOpFromToken_def)

lemma exprOrAssignStmt_assign:
  assumes "i p < length ts" "kind (ts ! i p) = TK_IDENT" "peekIsAssignOp ts p"
  shows "\<exists>op. exprOrAssignStmt n ts p =
           bind (expression n ts (p\<lparr>i := i p + 2\<rparr>)) (\<lambda>v p'.
             bind (consume ts TK_SEMICOLON ''Expected ';' after assignment.'' p') (\<lambda>_ p'.
               Ok (SAssign (lexeme (ts ! i p)) op v) p'))"
proof -
  from assms(3) have nx: "i p + 1 < length ts"
    "kind (ts ! (i p + 1)) \<in>
       {TK_ASSIGN, TK_PLUS_ASSIGN, TK_MINUS_ASSIGN, TK_STAR_ASSIGN, TK_SLASH_ASSIGN}"
    by (simp_all add: peekIsAssignOp_iff)
  then have ne: "kind (ts ! (i p + 1)) \<noteq> TK_EOF" by auto
  from assignOpFromToken_Ok[OF nx(2)] obtain op
    where op: "assignOpFromToken (ts ! (i p + 1)) (p\<lparr>i := i p + 2\<rparr>) = Ok op (p\<lparr>i := i p + 2\<rparr>)"
    by blast
  have "advance ts (p\<lparr>i := i p + 1\<rparr>) = Ok (ts ! (i p + 1)) (p\<lparr>i := i p + 2\<rparr>)"
    using nx(1) ne advance_in[of "p\<lparr>i := i p + 1\<rparr>" ts] by simp
  with assms op show ?thesis
    by (intro exI[of _ op]) (simp add: exprOrAssignStmt_def check_in advance_in)
qed

lemma exprOrAssignStmt_expr:
  assumes "i p < length ts" "\<not> peekIsAssignOp ts p"
  shows "exprOrAssignStmt n ts p =
           bind (expression n ts p) (\<lambda>e p'.
             bind (consume ts TK_SEMICOLON ''Expected ';' after expression.'' p') (\<lambda>_ p'.
               Ok (SExprStmt e) p'))"
  using assms by (simp add: exprOrAssignStmt_def check_in)

lemma bind2_Ok:
  "bind r (\<lambda>v p. bind (g v p) (\<lambda>_ p. Ok (h v) p)) = Ok s p' \<Longrightarrow> \<exists>v. s = h v"
  by (auto dest!: bind_eq_Ok)

lemma sample_assign:
  "statement 4 [tk TK_IDENT ''x'', tk TK_ASSIGN ''='', tk TK_IDENT ''y'', tk TK_SEMICOLON '';'',
                tk TK_EOF []] \<lparr>i = 0, errors = []\<rparr> =
     Ok (SAssign ''x'' A_ASSIGN (Ident ''y'')) \<lparr>i = 4, errors = []\<rparr>"
  "statement 4 [tk TK_IDENT ''x'', tk TK_EQUAL ''=='', tk TK_IDENT ''y'', tk TK_SEMICOLON '';'',
                tk TK_EOF []] \<lparr>i = 0, errors = []\<rparr> =
     Ok (SExprStmt (Binary B_EQUAL (Ident ''x'') (Ident ''y''))) \<lparr>i = 4, errors = []\<rparr>"
  by code_simp+

text \<open>
  Claim C5. At a statement position whose current token is an identifier, one token of
  lookahead decides: the token after the identifier is one of \<^verbatim>\<open>=\<close>, \<^verbatim>\<open>+=\<close>, \<^verbatim>\<open>-=\<close>, \<^verbatim>\<open>*=\<close>,
  \<^verbatim>\<open>/=\<close> exactly when the parser takes the assignment path (identifier and operator
  consumed, then an expression and \<^verbatim>\<open>;\<close>, giving an \<open>Assign\<close>); otherwise it parses an
  expression starting at the identifier itself, then \<^verbatim>\<open>;\<close>, giving an \<open>ExprStmt\<close>. So a
  statement returned from there is an \<open>Assign\<close> if and only if the lookahead token is an
  assignment operator.
\<close>

theorem assignment_lookahead:
  assumes "i p < length ts" and "kind (ts ! i p) = TK_IDENT"
  shows "(peekIsAssignOp ts p \<longleftrightarrow>
            i p + 1 < length ts \<and>
            kind (ts ! (i p + 1)) \<in>
              {TK_ASSIGN, TK_PLUS_ASSIGN, TK_MINUS_ASSIGN, TK_STAR_ASSIGN, TK_SLASH_ASSIGN}) \<and>
         (peekIsAssignOp ts p \<longrightarrow>
            (\<exists>op. statement n ts p =
               bind (expression n ts (p\<lparr>i := i p + 2\<rparr>)) (\<lambda>v p'.
                 bind (consume ts TK_SEMICOLON ''Expected ';' after assignment.'' p') (\<lambda>_ p'.
                   Ok (SAssign (lexeme (ts ! i p)) op v) p')))) \<and>
         (\<not> peekIsAssignOp ts p \<longrightarrow>
            statement n ts p =
               bind (expression n ts p) (\<lambda>e p'.
                 bind (consume ts TK_SEMICOLON ''Expected ';' after expression.'' p') (\<lambda>_ p'.
                   Ok (SExprStmt e) p'))) \<and>
         (\<forall>s p'. statement n ts p = Ok s p' \<longrightarrow>
            ((\<exists>name op v. s = SAssign name op v) \<longleftrightarrow> peekIsAssignOp ts p))"
proof (intro conjI impI allI)
  show "peekIsAssignOp ts p \<longleftrightarrow>
            i p + 1 < length ts \<and>
            kind (ts ! (i p + 1)) \<in>
              {TK_ASSIGN, TK_PLUS_ASSIGN, TK_MINUS_ASSIGN, TK_STAR_ASSIGN, TK_SLASH_ASSIGN}"
    by (rule peekIsAssignOp_iff)
next
  assume "peekIsAssignOp ts p"
  with assms show "\<exists>op. statement n ts p =
               bind (expression n ts (p\<lparr>i := i p + 2\<rparr>)) (\<lambda>v p'.
                 bind (consume ts TK_SEMICOLON ''Expected ';' after assignment.'' p') (\<lambda>_ p'.
                   Ok (SAssign (lexeme (ts ! i p)) op v) p'))"
    using exprOrAssignStmt_assign[of p ts n] by (simp add: statement_ident)
next
  assume "\<not> peekIsAssignOp ts p"
  with assms show "statement n ts p =
               bind (expression n ts p) (\<lambda>e p'.
                 bind (consume ts TK_SEMICOLON ''Expected ';' after expression.'' p') (\<lambda>_ p'.
                   Ok (SExprStmt e) p'))"
    by (simp add: statement_ident exprOrAssignStmt_expr)
next
  fix s p'
  assume ok: "statement n ts p = Ok s p'"
  show "(\<exists>name op v. s = SAssign name op v) \<longleftrightarrow> peekIsAssignOp ts p"
  proof (cases "peekIsAssignOp ts p")
    case True
    with assms obtain op where "exprOrAssignStmt n ts p =
           bind (expression n ts (p\<lparr>i := i p + 2\<rparr>)) (\<lambda>v p'.
             bind (consume ts TK_SEMICOLON ''Expected ';' after assignment.'' p') (\<lambda>_ p'.
               Ok (SAssign (lexeme (ts ! i p)) op v) p'))"
      using exprOrAssignStmt_assign[of p ts n] by blast
    with ok assms have "\<exists>v. s = SAssign (lexeme (ts ! i p)) op v"
      by (intro bind2_Ok) (simp add: statement_ident)
    with True show ?thesis by blast
  next
    case False
    with ok assms have "\<exists>e. s = SExprStmt e"
      by (intro bind2_Ok) (simp add: statement_ident exprOrAssignStmt_expr)
    with False show ?thesis by auto
  qed
qed

theorem assignment_lookahead_witness:
  "(\<exists>name op v. SAssign ''x'' A_ASSIGN (Ident ''y'') = SAssign name op v) \<and>
   peekIsAssignOp [tk TK_IDENT ''x'', tk TK_ASSIGN ''='', tk TK_IDENT ''y'', tk TK_SEMICOLON '';'',
                   tk TK_EOF []] \<lparr>i = 0, errors = []\<rparr> \<and>
   \<not> (\<exists>name op v. SExprStmt (Binary B_EQUAL (Ident ''x'') (Ident ''y'')) = SAssign name op v) \<and>
   \<not> peekIsAssignOp [tk TK_IDENT ''x'', tk TK_EQUAL ''=='', tk TK_IDENT ''y'', tk TK_SEMICOLON '';'',
                   tk TK_EOF []] \<lparr>i = 0, errors = []\<rparr>"
  using
    assignment_lookahead[of "\<lparr>i = 0, errors = []\<rparr>"
      "[tk TK_IDENT ''x'', tk TK_ASSIGN ''='', tk TK_IDENT ''y'', tk TK_SEMICOLON '';'', tk TK_EOF []]"
      4]
    assignment_lookahead[of "\<lparr>i = 0, errors = []\<rparr>"
      "[tk TK_IDENT ''x'', tk TK_EQUAL ''=='', tk TK_IDENT ''y'', tk TK_SEMICOLON '';'', tk TK_EOF []]"
      4]
    sample_assign
  by (simp add: tk_def)

subsection \<open>A missing closing parenthesis\<close>

lemma primary_group_unclosed:
  assumes "i p < length ts" "kind (ts ! i p) = TK_LPAREN"
    and "expression n ts (p\<lparr>i := i p + 1\<rparr>) = Ok e p'"
    and "i p' < length ts" "kind (ts ! i p') \<noteq> TK_RPAREN"
  shows "primary (Suc n) ts p = Err (error (ts ! i p') ''Expected ')' after expression.'') p'"
  using assms by (subst primary.simps) (simp add: match_in consume_in)

lemma call_loop_unclosed:
  assumes "i p < length ts" "kind (ts ! i p) = TK_LPAREN"
    and "i p + 1 < length ts" "kind (ts ! (i p + 1)) \<noteq> TK_RPAREN"
    and "arguments n ts [] (p\<lparr>i := i p + 1\<rparr>) = Ok args p'"
    and "i p' < length ts" "kind (ts ! i p') \<noteq> TK_RPAREN"
  shows "call_loop (Suc n) ts callee p =
           Err (error (ts ! i p') ''Expected ')' after arguments.'') p'"
  using assms by (subst call_loop.simps) (simp add: match_in check_in consume_in)

lemma consume_at_end:
  assumes "i p < length ts" "kind (ts ! i p) = TK_EOF"
  shows "consume ts k msg p = Err (error (ts ! i p) msg) p"
  using assms by (simp add: consume_in)

lemma expression_at_end:
  assumes "i p < length ts" "kind (ts ! i p) = TK_EOF"
  shows "expression n ts p = Err (error (ts ! i p) ''Expected expression.'') p"
  using assms
  by (simp add: expression.simps[of n ts p] logicOr.simps[of n ts p] logicAnd.simps[of n ts p]
      equality.simps[of n ts p] comparison.simps[of n ts p] term'.simps[of n ts p]
      factor.simps[of n ts p] unary.simps[of n ts p] call.simps[of n ts p]
      primary.simps[of n ts p] match_in current_in)

lemma primary_group_at_end:
  assumes "i p < length ts" "kind (ts ! i p) = TK_LPAREN"
    and "i p + 1 < length ts" "kind (ts ! (i p + 1)) = TK_EOF"
  shows "primary (Suc n) ts p =
           Err (error (ts ! (i p + 1)) ''Expected expression.'') (p\<lparr>i := i p + 1\<rparr>)"
  using assms expression_at_end[of "p\<lparr>i := i p + 1\<rparr>" ts n]
  by (subst primary.simps) (simp add: match_in)

lemma arguments_at_end:
  assumes "i p < length ts" "kind (ts ! i p) = TK_EOF"
  shows "arguments n ts args p = Err (error (ts ! i p) ''Expected expression.'') p"
  using assms expression_at_end[of p ts n]
  by (subst arguments.simps) simp

lemma call_loop_at_end:
  assumes "i p < length ts" "kind (ts ! i p) = TK_LPAREN"
    and "i p + 1 < length ts" "kind (ts ! (i p + 1)) = TK_EOF"
  shows "call_loop (Suc n) ts callee p =
           Err (error (ts ! (i p + 1)) ''Expected expression.'') (p\<lparr>i := i p + 1\<rparr>)"
  using assms arguments_at_end[of "p\<lparr>i := i p + 1\<rparr>" ts n "[]"]
  by (subst call_loop.simps) (simp add: match_in check_in)

lemma arguments_comma_at_end:
  assumes "expression (Suc n) ts p = Ok e p'"
    and "i p' < length ts" "kind (ts ! i p') = TK_COMMA"
    and "i p' + 1 < length ts" "kind (ts ! (i p' + 1)) = TK_EOF"
  shows "arguments (Suc n) ts args p =
           Err (error (ts ! (i p' + 1)) ''Expected expression.'') (p'\<lparr>i := i p' + 1\<rparr>)"
  using assms arguments_at_end[of "p'\<lparr>i := i p' + 1\<rparr>" ts n "args @ [e]"]
  by (subst arguments.simps) (simp add: match_in)

lemma sample_unclosed:
  "expression 2 [tk TK_LPAREN ''('', tk TK_IDENT ''a'', tk TK_EOF []] \<lparr>i = 1, errors = []\<rparr> =
     Ok (Ident ''a'') \<lparr>i = 2, errors = []\<rparr>"
  "arguments 2 [tk TK_LPAREN ''('', tk TK_IDENT ''a'', tk TK_EOF []] [] \<lparr>i = 1, errors = []\<rparr> =
     Ok [Ident ''a''] \<lparr>i = 2, errors = []\<rparr>"
  "expression 3 [tk TK_IDENT ''a'', tk TK_COMMA '','', tk TK_EOF []] \<lparr>i = 0, errors = []\<rparr> =
     Ok (Ident ''a'') \<lparr>i = 1, errors = []\<rparr>"
  by code_simp+

text \<open>
  Claim C6, as the code has it. When the expression after an opening parenthesis has
  been parsed and the next token is not \<^verbatim>\<open>)\<close>, \<open>primary\<close> raises the parse error
  ``Expected ')' after expression.'' with that token; when the arguments of a call have
  been parsed and the next token is not \<^verbatim>\<open>)\<close>, the call loop raises ``Expected ')' after
  arguments.'' with that token. The end-of-input token is such a token: at end-of-input
  \<open>consume\<close> raises its error for every expected kind, the end-of-input kind included.
  Where end-of-input stands at the place of an expression inside the open construct
  (directly behind the \<^verbatim>\<open>(\<close> of a group or of a call, or behind a \<^verbatim>\<open>,\<close> between arguments), the
  error raised is ``Expected expression.'' with the end-of-input token.
\<close>

theorem missing_closing_paren:
  "(i p < length ts \<and> kind (ts ! i p) = TK_LPAREN \<and>
    expression n ts (p\<lparr>i := i p + 1\<rparr>) = Ok e p' \<and>
    i p' < length ts \<and> kind (ts ! i p') \<noteq> TK_RPAREN \<longrightarrow>
      primary (Suc n) ts p = Err (error (ts ! i p') ''Expected ')' after expression.'') p') \<and>
   (i p < length ts \<and> kind (ts ! i p) = TK_LPAREN \<and>
    i p + 1 < length ts \<and> kind (ts ! (i p + 1)) \<noteq> TK_RPAREN \<and>
    arguments n ts [] (p\<lparr>i := i p + 1\<rparr>) = Ok args p' \<and>
    i p' < length ts \<and> kind (ts ! i p') \<noteq> TK_RPAREN \<longrightarrow>
      call_loop (Suc n) ts callee p =
        Err (error (ts ! i p') ''Expected ')' after arguments.'') p') \<and>
   (i p < length ts \<and> kind (ts ! i p) = TK_EOF \<longrightarrow>
      consume ts k msg p = Err (error (ts ! i p) msg) p) \<and>
   (i p < length ts \<and> kind (ts ! i p) = TK_LPAREN \<and>
    i p + 1 < length ts \<and> kind (ts ! (i p + 1)) = TK_EOF \<longrightarrow>
      primary (Suc n) ts p =
        Err (error (ts ! (i p + 1)) ''Expected expression.'') (p\<lparr>i := i p + 1\<rparr>) \<and>
      call_loop (Suc n) ts callee p =
        Err (error (ts ! (i p + 1)) ''Expected expression.'') (p\<lparr>i := i p + 1\<rparr>)) \<and>
   (expression (Suc n) ts p = Ok e p' \<and>
    i p' < length ts \<and> kind (ts ! i p') = TK_COMMA \<and>
    i p' + 1 < length ts \<and> kind (ts ! (i p' + 1)) = TK_EOF \<longrightarrow>
      arguments (Suc n) ts args p =
        Err (error (ts ! (i p' + 1)) ''Expected expression.'') (p'\<lparr>i := i p' + 1\<rparr>))"
  by (intro conjI impI; elim conjE;
      (rule primary_group_unclosed call_loop_unclosed consume_at_end primary_group_at_end
         call_loop_at_end arguments_comma_at_end; assumption))

theorem missing_closing_paren_witness:
  "primary 3 [tk TK_LPAREN ''('', tk TK_IDENT ''a'', tk TK_EOF []] \<lparr>i = 0, errors = []\<rparr> =
     Err (error (tk TK_EOF []) ''Expected ')' after expression.'') \<lparr>i = 2, errors = []\<rparr> \<and>
   call_loop 3 [tk TK_LPAREN ''('', tk TK_IDENT ''a'', tk TK_EOF []] (Ident ''f'')
       \<lparr>i = 0, errors = []\<rparr> =
     Err (error (tk TK_EOF []) ''Expected ')' after arguments.'') \<lparr>i = 2, errors = []\<rparr> \<and>
   consume [tk TK_LPAREN ''('', tk TK_IDENT ''a'', tk TK_EOF []] TK_EOF ''Expected end.''
       \<lparr>i = 2, errors = []\<rparr> =
     Err (error (tk TK_EOF []) ''Expected end.'') \<lparr>i = 2, errors = []\<rparr> \<and>
   primary 3 [tk TK_LPAREN ''('', tk TK_EOF []] \<lparr>i = 0, errors = []\<rparr> =
     Err (error (tk TK_EOF []) ''Expected expression.'') \<lparr>i = 1, errors = []\<rparr> \<and>
   call_loop 3 [tk TK_LPAREN ''('', tk TK_EOF []] (Ident ''f'') \<lparr>i = 0, errors = []\<rparr> =
     Err (error (tk TK_EOF []) ''Expected expression.'') \<lparr>i = 1, errors = []\<rparr> \<and>
   arguments 3 [tk TK_IDENT ''a'', tk TK_COMMA '','', tk TK_EOF []] [] \<lparr>i = 0, errors = []\<rparr> =
     Err (error (tk TK_EOF []) ''Expected expression.'') \<lparr>i = 2, errors = []\<rparr>"
  using
    missing_closing_paren[of "\<lparr>i = 0, errors = []\<rparr>"
      "[tk TK_LPAREN ''('', tk TK_IDENT ''a'', tk TK_EOF []]" 2 "Ident ''a''"
      "\<lparr>i = 2, errors = []\<rparr>" "[Ident ''a'']" "Ident ''f''"]
    missing_closing_paren[of "\<lparr>i = 2, errors = []\<rparr>"
      "[tk TK_LPAREN ''('', tk TK_IDENT ''a'', tk TK_EOF []]" _ _ _ _ _ TK_EOF "''Expected end.''"]
    missing_closing_paren[of "\<lparr>i = 0, errors = []\<rparr>"
      "[tk TK_LPAREN ''('', tk TK_EOF []]" 2 _ _ _ "Ident ''f''"]
    missing_closing_paren[of "\<lparr>i = 0, errors = []\<rparr>"
      "[tk TK_IDENT ''a'', tk TK_COMMA '','', tk TK_EOF []]" 2 "Ident ''a''"
      "\<lparr>i = 1, errors = []\<rparr>" "[]"]
    sample_unclosed
  by (simp add: tk_def)

text \<open>
  The claim as worded fails where end-of-input is reached before the expression inside
  the open construct has been parsed. On \<^verbatim>\<open>(\<close>, on \<^verbatim>\<open>f (\<close> and on \<^verbatim>\<open>f ( a ,\<close>, each followed by
  end-of-input, the group or argument list misses its \<^verbatim>\<open>)\<close> and end-of-input is reached
  inside it, but the error raised is ``Expected expression.'', which names neither \<^verbatim>\<open>)\<close> nor
  the construct.
\<close>

theorem missing_closing_paren_counterexample:
  "expression 3 [tk TK_LPAREN ''('', tk TK_EOF []] \<lparr>i = 0, errors = []\<rparr> =
     Err (error (tk TK_EOF []) ''Expected expression.'') \<lparr>i = 1, errors = []\<rparr> \<and>
   expression 3 [tk TK_IDENT ''f'', tk TK_LPAREN ''('', tk TK_EOF []] \<lparr>i = 0, errors = []\<rparr> =
     Err (error (tk TK_EOF []) ''Expected expression.'') \<lparr>i = 2, errors = []\<rparr> \<and>
   expression 5 [tk TK_IDENT ''f'', tk TK_LPAREN ''('', tk TK_IDENT ''a'', tk TK_COMMA '','',
                 tk TK_EOF []] \<lparr>i = 0, errors = []\<rparr> =
     Err (error (tk TK_EOF []) ''Expected expression.'') \<lparr>i = 4, errors = []\<rparr>"
  by code_simp

subsection \<open>The parser on well-formed expressions\<close>

lemma fuel_indep:
  assumes e: "\<And>a b. a \<le> b \<Longrightarrow> ext (F a) (F b)"
    and s: "\<And>a. length ts \<le> i p + a \<Longrightarrow> sound ts s0 p (F a)"
    and n: "length ts \<le> i p + n" and m: "length ts \<le> i p + m"
  shows "F n = F m"
proof (cases "n \<le> m")
  case True
  have "F m = F n" by (rule ext_sound_eq[OF e[OF True] s[OF n]])
  then show ?thesis by (rule sym)
next
  case False
  then have le: "m \<le> n" by simp
  show ?thesis by (rule ext_sound_eq[OF e[OF le] s[OF m]])
qed

lemma loops_ext:
  assumes "a \<le> b"
  shows "ext (logicOr_loop a ts e p) (logicOr_loop b ts e p)"
    "ext (logicAnd_loop a ts e p) (logicAnd_loop b ts e p)"
    "ext (equality_loop a ts e p) (equality_loop b ts e p)"
    "ext (comparison_loop a ts e p) (comparison_loop b ts e p)"
    "ext (term_loop a ts e p) (term_loop b ts e p)"
    "ext (factor_loop a ts e p) (factor_loop b ts e p)"
  using expr_ext[of a] assms unfolding expr_ext_def by blast+

lemma loops_sound:
  assumes "length ts \<le> i p + a"
  shows "sound ts 0 p (logicOr_loop a ts e p)"
    "sound ts 0 p (logicAnd_loop a ts e p)"
    "sound ts 0 p (equality_loop a ts e p)"
    "sound ts 0 p (comparison_loop a ts e p)"
    "sound ts 0 p (term_loop a ts e p)"
    "sound ts 0 p (factor_loop a ts e p)"
  using expr_sound[of a] assms unfolding expr_sound_def by blast+

lemma loop_at_fuel:
  assumes n: "length ts \<le> i p + n" and m: "length ts \<le> i p + m"
  shows "loop_at k n ts e p = loop_at k m ts e p"
proof -
  have "logicOr_loop n ts e p = logicOr_loop m ts e p"
    by (rule fuel_indep[of "\<lambda>a. logicOr_loop a ts e p", OF loops_ext(1) loops_sound(1) n m])
  moreover have "logicAnd_loop n ts e p = logicAnd_loop m ts e p"
    by (rule fuel_indep[of "\<lambda>a. logicAnd_loop a ts e p", OF loops_ext(2) loops_sound(2) n m])
  moreover have "equality_loop n ts e p = equality_loop m ts e p"
    by (rule fuel_indep[of "\<lambda>a. equality_loop a ts e p", OF loops_ext(3) loops_sound(3) n m])
  moreover have "comparison_loop n ts e p = comparison_loop m ts e p"
    by (rule fuel_indep[of "\<lambda>a. comparison_loop a ts e p", OF loops_ext(4) loops_sound(4) n m])
  moreover have "term_loop n ts e p = term_loop m ts e p"
    by (rule fuel_indep[of "\<lambda>a. term_loop a ts e p", OF loops_ext(5) loops_sound(5) n m])
  moreover have "factor_loop n ts e p = factor_loop m ts e p"
    by (rule fuel_indep[of "\<lambda>a. factor_loop a ts e p", OF loops_ext(6) loops_sound(6) n m])
  ultimately show ?thesis by (simp add: loop_at_def)
qed

lemma tier_iff:
  "tier x = Suc 0 \<longleftrightarrow> x = TK_OR"
  "tier x = 2 \<longleftrightarrow> x = TK_AND"
  "tier x = 3 \<longleftrightarrow> x = TK_EQUAL \<or> x = TK_NOTEQ"
  "tier x = 4 \<longleftrightarrow> x = TK_LT \<or> x = TK_LTE \<or> x = TK_GT \<or> x = TK_GTE"
  "tier x = 5 \<longleftrightarrow> x = TK_PLUS \<or> x = TK_MINUS"
  "tier x = 6 \<longleftrightarrow> x = TK_STAR \<or> x = TK_SLASH"
  by (cases x; simp)+

lemma tier_le_6: "tier x \<le> 6"
  by (cases x) simp_all

lemma loop_at_stop:
  assumes "i p < length ts" "tier (kind (ts ! i p)) \<noteq> k"
  shows "loop_at k n ts e p = Ok e p"
  using assms
  by (auto simp: loop_at_def match_in logicOr_loop.simps[of n ts e p]
      logicAnd_loop.simps[of n ts e p] equality_loop.simps[of n ts e p]
      comparison_loop.simps[of n ts e p] term_loop.simps[of n ts e p]
      factor_loop.simps[of n ts e p])

lemma loop_at_step:
  assumes "i p < length ts" "tier (kind (ts ! i p)) = k" "0 < k"
  shows "loop_at k (Suc n) ts e p =
           bind (parse_at (Suc k) n ts (p\<lparr>i := i p + 1\<rparr>))
             (\<lambda>rhs q. loop_at k n ts (Binary (binop (kind (ts ! i p))) e rhs) q)"
proof -
  from assms(2,3) tier_le_6[of "kind (ts ! i p)"]
  consider "k = 1" | "k = 2" | "k = 3" | "k = 4" | "k = 5" | "k = 6" by linarith
  then show ?thesis
  proof cases
    case 1
    with assms show ?thesis
      by (auto simp: loop_at_def parse_at_def match_in tier_iff
          logicOr_loop.simps[of "Suc n" ts e p])
  next
    case 2
    with assms show ?thesis
      by (auto simp: loop_at_def parse_at_def match_in tier_iff
          logicAnd_loop.simps[of "Suc n" ts e p])
  next
    case 3
    with assms show ?thesis
      by (auto simp: loop_at_def parse_at_def match_in previous_in tier_iff
          equality_loop.simps[of "Suc n" ts e p])
  next
    case 4
    with assms show ?thesis
      by (auto simp: loop_at_def parse_at_def match_in previous_in tier_iff
          comparison_loop.simps[of "Suc n" ts e p])
  next
    case 5
    with assms show ?thesis
      by (auto simp: loop_at_def parse_at_def match_in previous_in tier_iff
          term_loop.simps[of "Suc n" ts e p])
  next
    case 6
    with assms show ?thesis
      by (auto simp: loop_at_def parse_at_def match_in previous_in tier_iff
          factor_loop.simps[of "Suc n" ts e p])
  qed
qed

lemma parse_at_unfold:
  assumes "1 \<le> k" "k \<le> 6"
  shows "parse_at k n ts p = bind (parse_at (Suc k) n ts p) (\<lambda>e q. loop_at k n ts e q)"
proof -
  from assms consider "k = 1" | "k = 2" | "k = 3" | "k = 4" | "k = 5" | "k = 6" by linarith
  then show ?thesis
    by cases
       (simp_all add: parse_at_def loop_at_def logicOr.simps[of n ts p] logicAnd.simps[of n ts p]
          equality.simps[of n ts p] comparison.simps[of n ts p] term'.simps[of n ts p]
          factor.simps[of n ts p])
qed

lemma lift_tier:
  assumes "parse_at j n ts p = loop_at j n ts e q"
    and "i q < length ts" "tier (kind (ts ! i q)) \<le> k" "1 \<le> k" "k \<le> j" "j \<le> 7"
  shows "parse_at k n ts p = loop_at k n ts e q"
  using assms(3-5)
proof (induction "j - k" arbitrary: k)
  case 0
  then have "k = j" by simp
  with assms(1) show ?case by simp
next
  case (Suc d)
  then have lt: "k < j" and d: "d = j - Suc k" by simp_all
  have up: "parse_at (Suc k) n ts p = loop_at (Suc k) n ts e q"
    using Suc.prems lt by (intro Suc.hyps(1)[OF d]) simp_all
  have "loop_at (Suc k) n ts e q = Ok e q"
    using assms(2) Suc.prems(1) by (intro loop_at_stop) simp_all
  with up have "parse_at (Suc k) n ts p = Ok e q" by simp
  moreover have "parse_at k n ts p = bind (parse_at (Suc k) n ts p) (\<lambda>e q. loop_at k n ts e q)"
    using Suc.prems(2) lt assms(6) by (intro parse_at_unfold) simp_all
  ultimately show ?case by simp
qed

lemma drop_eq_ConsD:
  assumes "drop m ts = x # xs"
  shows "m < length ts" "ts ! m = x" "drop (Suc m) ts = xs"
proof -
  show "m < length ts" using assms by (cases "m < length ts") simp_all
  show "ts ! m = x" using assms by (rule nth_via_drop)
  show "drop (Suc m) ts = xs" using assms by (metis drop_Suc list.sel(3) tl_drop)
qed

lemma drop_eq_appendD:
  assumes "drop m ts = xs @ ys"
  shows "drop (m + length xs) ts = ys"
proof -
  have "drop (m + length xs) ts = drop (length xs) (drop m ts)" by (simp add: add.commute)
  with assms show ?thesis by simp
qed

lemma call_loop_stop:
  assumes "i p < length ts" "kind (ts ! i p) \<noteq> TK_LPAREN"
  shows "call_loop n ts e p = Ok e p"
  using assms by (simp add: call_loop.simps[of n ts e p] match_in)

lemma unary_atom:
  assumes "i p + 1 < length ts" "kind (ts ! (i p + 1)) \<noteq> TK_LPAREN"
  shows "kind (ts ! i p) = TK_NUMBER \<Longrightarrow>
           unary n ts p = Ok (Num (literal_or_lexeme (ts ! i p))) (p\<lparr>i := i p + 1\<rparr>)"
    "kind (ts ! i p) = TK_STRING \<Longrightarrow>
           unary n ts p = Ok (Str (literal_or_lexeme (ts ! i p))) (p\<lparr>i := i p + 1\<rparr>)"
    "kind (ts ! i p) = TK_IDENT \<Longrightarrow>
           unary n ts p = Ok (Ident (lexeme (ts ! i p))) (p\<lparr>i := i p + 1\<rparr>)"
  using assms
  by (simp_all add: unary.simps[of n ts p] call.simps[of n ts p] primary.simps[of n ts p]
      call_loop_stop match_in previous_in)

lemma unary_group:
  assumes "i p < length ts" "kind (ts ! i p) = TK_LPAREN"
    and "expression n ts (p\<lparr>i := i p + 1\<rparr>) = Ok e q"
    and "i q + 1 < length ts" "kind (ts ! i q) = TK_RPAREN"
    and "kind (ts ! (i q + 1)) \<noteq> TK_LPAREN"
  shows "unary (Suc n) ts p = Ok (Group e) (q\<lparr>i := i q + 1\<rparr>)"
  using assms
  by (simp add: unary.simps[of "Suc n" ts p] call.simps[of "Suc n" ts p]
      primary.simps[of "Suc n" ts p] call_loop_stop match_in consume_in)

lemma unary_op:
  assumes "i p < length ts"
    and "kind (ts ! i p) = TK_NOT \<or> kind (ts ! i p) = TK_MINUS \<or> kind (ts ! i p) = TK_BANG"
    and "unary n ts (p\<lparr>i := i p + 1\<rparr>) = Ok e q"
  shows "unary (Suc n) ts p = Ok (Unary (unop (kind (ts ! i p))) e) q"
  using assms
  by (auto simp: unary.simps[of "Suc n" ts p] match_in previous_in)

lemma expression_logicOr: "expression n ts p = logicOr n ts p"
  by (simp add: expression.simps[of n ts p])

lemma parse_cst:
  assumes "wf k c" "1 \<le> k" "k \<le> 7"
    and "drop (i p) ts = tokens_of c @ f # rest"
    and "kind f \<noteq> TK_LPAREN" "tier (kind f) \<le> k"
    and "length ts \<le> i p + n"
  shows "parse_at k n ts p = loop_at k n ts (ast_of c) (p\<lparr>i := i p + length (tokens_of c)\<rparr>)"
  using assms
proof (induction c arbitrary: k p n f rest)
  case (CNum t)
  let ?q = "p\<lparr>i := i p + 1\<rparr>"
  from CNum.prems(4) have t: "i p < length ts" "ts ! i p = t" "drop (Suc (i p)) ts = f # rest"
    using drop_eq_ConsD[of "i p" ts t "f # rest"] by simp_all
  from t(3) have f: "Suc (i p) < length ts" "ts ! Suc (i p) = f"
    using drop_eq_ConsD[of "Suc (i p)" ts f rest] by simp_all
  have "unary n ts p = Ok (Num (literal_or_lexeme (ts ! i p))) ?q"
    using CNum.prems(1,5) t f by (intro unary_atom) simp_all
  then have "parse_at 7 n ts p = loop_at 7 n ts (ast_of (CNum t)) ?q"
    using t by (simp add: parse_at_def loop_at_def)
  then have "parse_at k n ts p = loop_at k n ts (ast_of (CNum t)) ?q"
    by (rule lift_tier[where j = 7]) (use CNum.prems(2,3,6) f in simp_all)
  then show ?case by simp
next
  case (CStr t)
  let ?q = "p\<lparr>i := i p + 1\<rparr>"
  from CStr.prems(4) have t: "i p < length ts" "ts ! i p = t" "drop (Suc (i p)) ts = f # rest"
    using drop_eq_ConsD[of "i p" ts t "f # rest"] by simp_all
  from t(3) have f: "Suc (i p) < length ts" "ts ! Suc (i p) = f"
    using drop_eq_ConsD[of "Suc (i p)" ts f rest] by simp_all
  have "unary n ts p = Ok (Str (literal_or_lexeme (ts ! i p))) ?q"
    using CStr.prems(1,5) t f by (intro unary_atom) simp_all
  then have "parse_at 7 n ts p = loop_at 7 n ts (ast_of (CStr t)) ?q"
    using t by (simp add: parse_at_def loop_at_def)
  then have "parse_at k n ts p = loop_at k n ts (ast_of (CStr t)) ?q"
    by (rule lift_tier[where j = 7]) (use CStr.prems(2,3,6) f in simp_all)
  then show ?case by simp
next
  case (CIdent t)
  let ?q = "p\<lparr>i := i p + 1\<rparr>"
  from CIdent.prems(4) have t: "i p < length ts" "ts ! i p = t" "drop (Suc (i p)) ts = f # rest"
    using drop_eq_ConsD[of "i p" ts t "f # rest"] by simp_all
  from t(3) have f: "Suc (i p) < length ts" "ts ! Suc (i p) = f"
    using drop_eq_ConsD[of "Suc (i p)" ts f rest] by simp_all
  have "unary n ts p = Ok (Ident (lexeme (ts ! i p))) ?q"
    using CIdent.prems(1,5) t f by (intro unary_atom) simp_all
  then have "parse_at 7 n ts p = loop_at 7 n ts (ast_of (CIdent t)) ?q"
    using t by (simp add: parse_at_def loop_at_def)
  then have "parse_at k n ts p = loop_at k n ts (ast_of (CIdent t)) ?q"
    by (rule lift_tier[where j = 7]) (use CIdent.prems(2,3,6) f in simp_all)
  then show ?case by simp
next
  case (CGroup l c r)
  let ?p1 = "p\<lparr>i := i p + 1\<rparr>"
  let ?q = "p\<lparr>i := i p + 1 + length (tokens_of c)\<rparr>"
  let ?q1 = "p\<lparr>i := i p + length (tokens_of (CGroup l c r))\<rparr>"
  from CGroup.prems(1) have w: "kind l = TK_LPAREN" "kind r = TK_RPAREN" "wf 1 c" by simp_all
  from CGroup.prems(4) have l: "i p < length ts" "ts ! i p = l"
    "drop (Suc (i p)) ts = tokens_of c @ r # f # rest"
    using drop_eq_ConsD[of "i p" ts l "tokens_of c @ r # f # rest"] by simp_all
  from drop_eq_appendD[OF l(3)]
  have dr: "drop (Suc (i p) + length (tokens_of c)) ts = r # f # rest" .
  then have r: "Suc (i p) + length (tokens_of c) < length ts"
    "ts ! (Suc (i p) + length (tokens_of c)) = r"
    "drop (Suc (Suc (i p) + length (tokens_of c))) ts = f # rest"
    using drop_eq_ConsD[of "Suc (i p) + length (tokens_of c)" ts r "f # rest"] by simp_all
  from r(3) have f: "Suc (Suc (i p) + length (tokens_of c)) < length ts"
    "ts ! Suc (Suc (i p) + length (tokens_of c)) = f"
    using drop_eq_ConsD[of "Suc (Suc (i p) + length (tokens_of c))" ts f rest] by simp_all
  from l(1) CGroup.prems(7) obtain n' where n: "n = Suc n'" by (cases n) auto
  have "parse_at 1 n' ts ?p1 = loop_at 1 n' ts (ast_of c) (?p1\<lparr>i := i ?p1 + length (tokens_of c)\<rparr>)"
    using w(2,3) l(3) CGroup.prems(7) n
    by (intro CGroup.IH[where f = r and rest = "f # rest"]) simp_all
  moreover have "loop_at 1 n' ts (ast_of c) ?q = Ok (ast_of c) ?q"
    using r w(2) by (intro loop_at_stop) simp_all
  ultimately have "expression n' ts ?p1 = Ok (ast_of c) ?q"
    by (simp add: parse_at_def expression_logicOr)
  then have "unary (Suc n') ts p = Ok (Group (ast_of c)) (?q\<lparr>i := i ?q + 1\<rparr>)"
    using l w r f CGroup.prems(5) by (intro unary_group) simp_all
  then have "parse_at 7 n ts p = loop_at 7 n ts (ast_of (CGroup l c r)) ?q1"
    using n by (simp add: parse_at_def loop_at_def)
  then show ?case
    by (rule lift_tier[where j = 7]) (use CGroup.prems(2,3,6) f in simp_all)
next
  case (CUnary t c)
  let ?p1 = "p\<lparr>i := i p + 1\<rparr>"
  let ?q = "p\<lparr>i := i p + length (tokens_of (CUnary t c))\<rparr>"
  from CUnary.prems(1) have w: "kind t = TK_NOT \<or> kind t = TK_MINUS \<or> kind t = TK_BANG"
    "wf 7 c" by simp_all
  from CUnary.prems(4) have t: "i p < length ts" "ts ! i p = t"
    "drop (Suc (i p)) ts = tokens_of c @ f # rest"
    using drop_eq_ConsD[of "i p" ts t "tokens_of c @ f # rest"] by simp_all
  from drop_eq_appendD[OF t(3)]
  have "drop (Suc (i p) + length (tokens_of c)) ts = f # rest" .
  then have f: "Suc (i p) + length (tokens_of c) < length ts"
    "ts ! (Suc (i p) + length (tokens_of c)) = f"
    using drop_eq_ConsD[of "Suc (i p) + length (tokens_of c)" ts f rest] by simp_all
  from t(1) CUnary.prems(7) obtain n' where n: "n = Suc n'" by (cases n) auto
  have "parse_at 7 n' ts ?p1 = loop_at 7 n' ts (ast_of c) (?p1\<lparr>i := i ?p1 + length (tokens_of c)\<rparr>)"
    using w(2) t(3) CUnary.prems(5,7) n tier_le_6[of "kind f"]
    by (intro CUnary.IH[where f = f and rest = rest]) simp_all
  then have "unary n' ts ?p1 = Ok (ast_of c) ?q"
    by (simp add: parse_at_def loop_at_def)
  then have "unary (Suc n') ts p = Ok (Unary (unop (kind (ts ! i p))) (ast_of c)) ?q"
    using t w by (intro unary_op) simp_all
  then have "parse_at 7 n ts p = loop_at 7 n ts (ast_of (CUnary t c)) ?q"
    using n t by (simp add: parse_at_def loop_at_def)
  then show ?case
    by (rule lift_tier[where j = 7]) (use CUnary.prems(2,3,6) f in simp_all)
next
  case (CBinary a t b)
  let ?j = "tier (kind t)"
  let ?pa = "p\<lparr>i := i p + length (tokens_of a)\<rparr>"
  let ?pa1 = "p\<lparr>i := i p + length (tokens_of a) + 1\<rparr>"
  let ?q = "p\<lparr>i := i p + length (tokens_of (CBinary a t b))\<rparr>"
  let ?e = "Binary (binop (kind t)) (ast_of a) (ast_of b)"
  from CBinary.prems(1) have w: "0 < ?j" "k \<le> ?j" "wf ?j a" "wf (Suc ?j) b" by simp_all
  have j6: "?j \<le> 6" by (rule tier_le_6)
  from w(1) have tl: "kind t \<noteq> TK_LPAREN" by auto
  from CBinary.prems(4)
  have da: "drop (i p) ts = tokens_of a @ t # tokens_of b @ f # rest" by simp
  from drop_eq_appendD[OF da]
  have "drop (i p + length (tokens_of a)) ts = t # tokens_of b @ f # rest" .
  then have t: "i p + length (tokens_of a) < length ts" "ts ! (i p + length (tokens_of a)) = t"
    "drop (Suc (i p + length (tokens_of a))) ts = tokens_of b @ f # rest"
    using drop_eq_ConsD[of "i p + length (tokens_of a)" ts t "tokens_of b @ f # rest"]
    by simp_all
  from drop_eq_appendD[OF t(3)]
  have "drop (Suc (i p + length (tokens_of a)) + length (tokens_of b)) ts = f # rest" .
  then have f: "Suc (i p + length (tokens_of a)) + length (tokens_of b) < length ts"
    "ts ! (Suc (i p + length (tokens_of a)) + length (tokens_of b)) = f"
    using drop_eq_ConsD[of "Suc (i p + length (tokens_of a)) + length (tokens_of b)" ts f rest]
    by simp_all
  from t(1) CBinary.prems(7) obtain n' where n: "n = Suc n'" by (cases n) auto
  have left: "parse_at ?j n ts p = loop_at ?j n ts (ast_of a) ?pa"
    using w j6 da tl CBinary.prems(7)
    by (intro CBinary.IH(1)[where f = t and rest = "tokens_of b @ f # rest"]) simp_all
  have "loop_at ?j (Suc n') ts (ast_of a) ?pa =
           bind (parse_at (Suc ?j) n' ts (?pa\<lparr>i := i ?pa + 1\<rparr>))
             (\<lambda>rhs q. loop_at ?j n' ts (Binary (binop (kind (ts ! i ?pa))) (ast_of a) rhs) q)"
    using t w(1) by (intro loop_at_step) simp_all
  then have step: "loop_at ?j n ts (ast_of a) ?pa =
           bind (parse_at (Suc ?j) n' ts ?pa1)
             (\<lambda>rhs q. loop_at ?j n' ts (Binary (binop (kind t)) (ast_of a) rhs) q)"
    unfolding n using t(2) by simp
  have "parse_at (Suc ?j) n' ts ?pa1 =
      loop_at (Suc ?j) n' ts (ast_of b) (?pa1\<lparr>i := i ?pa1 + length (tokens_of b)\<rparr>)"
    using w j6 t(3) CBinary.prems(5,6,7) n
    by (intro CBinary.IH(2)[where f = f and rest = rest]) simp_all
  moreover have "?pa1\<lparr>i := i ?pa1 + length (tokens_of b)\<rparr> = ?q" by simp
  moreover have "loop_at (Suc ?j) n' ts (ast_of b) ?q = Ok (ast_of b) ?q"
    using f w(2) CBinary.prems(6) by (intro loop_at_stop) (simp_all add: add.assoc)
  ultimately have right: "parse_at (Suc ?j) n' ts ?pa1 = Ok (ast_of b) ?q"
    by (simp only:)
  have fuel: "loop_at ?j n' ts ?e ?q = loop_at ?j n ts ?e ?q"
    using CBinary.prems(7) n by (intro loop_at_fuel) simp_all
  have "parse_at ?j n ts p = loop_at ?j n ts (ast_of a) ?pa" by (rule left)
  also have "\<dots> = bind (parse_at (Suc ?j) n' ts ?pa1)
             (\<lambda>rhs q. loop_at ?j n' ts (Binary (binop (kind t)) (ast_of a) rhs) q)"
    by (rule step)
  also have "\<dots> = loop_at ?j n' ts ?e ?q" by (simp only: right bind_simps)
  also have "\<dots> = loop_at ?j n ts ?e ?q" by (rule fuel)
  finally have "parse_at ?j n ts p = loop_at ?j n ts ?e ?q" .
  then have "parse_at k n ts p = loop_at k n ts ?e ?q"
    by (rule lift_tier[where j = ?j]) (use CBinary.prems(2,3,6) w(2) j6 f in \<open>simp_all add: add.assoc\<close>)
  then show ?case by simp
qed

lemma expression_cst:
  assumes "wf 1 c" and "drop (i p) ts = tokens_of c @ f # rest"
    and "kind f \<noteq> TK_LPAREN" "tier (kind f) = 0"
    and "length ts \<le> i p + n"
  shows "expression n ts p = Ok (ast_of c) (p\<lparr>i := i p + length (tokens_of c)\<rparr>)"
proof -
  let ?q = "p\<lparr>i := i p + length (tokens_of c)\<rparr>"
  have "parse_at 1 n ts p = loop_at 1 n ts (ast_of c) ?q"
    using assms by (intro parse_cst[where f = f and rest = rest]) simp_all
  moreover have "drop (i p + length (tokens_of c)) ts = f # rest"
    by (rule drop_eq_appendD[OF assms(2)])
  then have "i ?q < length ts" "ts ! i ?q = f"
    using drop_eq_ConsD[of "i p + length (tokens_of c)" ts f rest] by simp_all
  then have "loop_at 1 n ts (ast_of c) ?q = Ok (ast_of c) ?q"
    using assms(4) by (intro loop_at_stop) simp_all
  ultimately show ?thesis
    by (simp add: parse_at_def expression_logicOr)
qed

subsection \<open>Precedence and grouping\<close>

text \<open>
  Claim C1. For every well-formed expression over \<^verbatim>\<open>+ - * /\<close>, parentheses and number
  literals, followed by a token that continues no expression, \<^verbatim>\<open>expression\<close> returns the tree
  of the precedence ladder and stops behind the expression: the operands of \<^verbatim>\<open>*\<close> and \<^verbatim>\<open>/\<close>
  are sentences of the tiers above \<^verbatim>\<open>+\<close> and \<^verbatim>\<open>-\<close>, and a parenthesized expression becomes a
  \<open>Group\<close> node. So \<^verbatim>\<open>2 + 3 * 4\<close> is parsed as \<^verbatim>\<open>2 + (3 * 4)\<close>, denoting 14, and
  \<^verbatim>\<open>(2 + 3) * 4\<close> as the group \<^verbatim>\<open>(2 + 3)\<close> times 4, denoting 20.
\<close>

theorem arithmetic_precedence:
  assumes "wf 1 c" and "arith c"
    and "drop (i p) ts = tokens_of c @ f # rest"
    and "kind f \<noteq> TK_LPAREN" and "tier (kind f) = 0"
    and "length ts \<le> i p + n"
  shows "expression n ts p = Ok (ast_of c) (p\<lparr>i := i p + length (tokens_of c)\<rparr>)"
  using assms(1,3-6) by (rule expression_cst)

theorem arithmetic_precedence_witness:
  "expression 6 [num 2, tk TK_PLUS ''+'', num 3, tk TK_STAR ''*'', num 4, tk TK_EOF []]
     \<lparr>i = 0, errors = []\<rparr> =
     Ok (Binary B_PLUS (Num (OfLiteral (NumberLit 2)))
          (Binary B_STAR (Num (OfLiteral (NumberLit 3))) (Num (OfLiteral (NumberLit 4)))))
        \<lparr>i = 5, errors = []\<rparr> \<and>
   denote (Binary B_PLUS (Num (OfLiteral (NumberLit 2)))
          (Binary B_STAR (Num (OfLiteral (NumberLit 3))) (Num (OfLiteral (NumberLit 4))))) =
     Some 14 \<and>
   expression 8 [tk TK_LPAREN ''('', num 2, tk TK_PLUS ''+'', num 3, tk TK_RPAREN '')'',
                 tk TK_STAR ''*'', num 4, tk TK_EOF []]
     \<lparr>i = 0, errors = []\<rparr> =
     Ok (Binary B_STAR
          (Group (Binary B_PLUS (Num (OfLiteral (NumberLit 2))) (Num (OfLiteral (NumberLit 3)))))
          (Num (OfLiteral (NumberLit 4))))
        \<lparr>i = 7, errors = []\<rparr> \<and>
   denote (Binary B_STAR
          (Group (Binary B_PLUS (Num (OfLiteral (NumberLit 2))) (Num (OfLiteral (NumberLit 3)))))
          (Num (OfLiteral (NumberLit 4)))) =
     Some 20"
  using
    arithmetic_precedence[of
      "CBinary (CNum (num 2)) (tk TK_PLUS ''+'')
         (CBinary (CNum (num 3)) (tk TK_STAR ''*'') (CNum (num 4)))"
      "\<lparr>i = 0, errors = []\<rparr>"
      "[num 2, tk TK_PLUS ''+'', num 3, tk TK_STAR ''*'', num 4, tk TK_EOF []]"
      "tk TK_EOF []" "[]" 6]
    arithmetic_precedence[of
      "CBinary (CGroup (tk TK_LPAREN ''('')
                  (CBinary (CNum (num 2)) (tk TK_PLUS ''+'') (CNum (num 3)))
                  (tk TK_RPAREN '')''))
         (tk TK_STAR ''*'') (CNum (num 4))"
      "\<lparr>i = 0, errors = []\<rparr>"
      "[tk TK_LPAREN ''('', num 2, tk TK_PLUS ''+'', num 3, tk TK_RPAREN '')'',
        tk TK_STAR ''*'', num 4, tk TK_EOF []]"
      "tk TK_EOF []" "[]" 8]
  by (simp add: tk_def num_def literal_or_lexeme_def)

subsection \<open>Chains of operators of one tier\<close>

lemma wf_mono: "wf k c \<Longrightarrow> k' \<le> k \<Longrightarrow> wf k' c"
  by (cases c) auto

lemma chain_wf:
  assumes "wf j a" and "0 < j"
    and "\<forall>(t, b) \<in> set ops. tier (kind t) = j \<and> wf (Suc j) b"
  shows "wf j (foldl (\<lambda>acc (t, b). CBinary acc t b) a ops)"
  using assms by (induction ops arbitrary: a) auto

lemma chain_tokens:
  "tokens_of (foldl (\<lambda>acc (t, b). CBinary acc t b) a ops) =
     tokens_of a @ concat (map (\<lambda>(t, b). t # tokens_of b) ops)"
  by (induction ops arbitrary: a) auto

lemma chain_ast:
  "ast_of (foldl (\<lambda>acc (t, b). CBinary acc t b) a ops) =
     foldl (\<lambda>acc (t, b). Binary (binop (kind t)) acc (ast_of b)) (ast_of a) ops"
  by (induction ops arbitrary: a) auto

lemma parse_chain:
  assumes j: "1 \<le> j" "j \<le> 6"
    and a: "wf (Suc j) a"
    and ops: "\<forall>(t, b) \<in> set ops. tier (kind t) = j \<and> wf (Suc j) b"
    and d: "drop (i p) ts = tokens_of a @ concat (map (\<lambda>(t, b). t # tokens_of b) ops) @ f # rest"
    and f: "kind f \<noteq> TK_LPAREN" "tier (kind f) < j"
    and n: "length ts \<le> i p + n"
  shows "parse_at j n ts p =
           Ok (foldl (\<lambda>acc (t, b). Binary (binop (kind t)) acc (ast_of b)) (ast_of a) ops)
              (p\<lparr>i := i p + length (tokens_of a @ concat (map (\<lambda>(t, b). t # tokens_of b) ops))\<rparr>)"
proof -
  let ?c = "foldl (\<lambda>acc (t, b). CBinary acc t b) a ops"
  let ?q = "p\<lparr>i := i p + length (tokens_of ?c)\<rparr>"
  have w: "wf j ?c"
    using wf_mono[OF a, of j] j(1) ops by (intro chain_wf) simp_all
  have d': "drop (i p) ts = tokens_of ?c @ f # rest"
    using d by (simp add: chain_tokens)
  have "parse_at j n ts p = loop_at j n ts (ast_of ?c) ?q"
    using w j d' f n by (intro parse_cst[where f = f and rest = rest]) simp_all
  moreover have "drop (i p + length (tokens_of ?c)) ts = f # rest"
    by (rule drop_eq_appendD[OF d'])
  then have "i ?q < length ts" "ts ! i ?q = f"
    using drop_eq_ConsD[of "i p + length (tokens_of ?c)" ts f rest] by simp_all
  then have "loop_at j n ts (ast_of ?c) ?q = Ok (ast_of ?c) ?q"
    using f(2) by (intro loop_at_stop) simp_all
  ultimately have "parse_at j n ts p = Ok (ast_of ?c) ?q" by simp
  then show ?thesis by (simp only: chain_ast chain_tokens)
qed

text \<open>
  Claim C2. At every binary tier \<open>j\<close> (1 \<open>or\<close>, 2 \<open>and\<close>, 3 equality, 4 comparison, 5 term,
  6 factor), a chain \<open>a op\<^sub>1 b\<^sub>1 \<dots> op\<^sub>m b\<^sub>m\<close> of operators of that tier, with operands of
  the next tier and followed by a token of a lower tier, is folded from the left: the
  method of the tier returns \<open>(\<dots>((a op\<^sub>1 b\<^sub>1) op\<^sub>2 b\<^sub>2)\<dots>) op\<^sub>m b\<^sub>m\<close> and stops behind the
  chain. So \<^verbatim>\<open>10 - 3 - 2\<close> is parsed as \<^verbatim>\<open>(10 - 3) - 2\<close>, denoting 5.
\<close>

theorem same_tier_chain:
  assumes "1 \<le> j" and "j \<le> 6"
    and "wf (Suc j) a"
    and "\<forall>(t, b) \<in> set ops. tier (kind t) = j \<and> wf (Suc j) b"
    and "drop (i p) ts = tokens_of a @ concat (map (\<lambda>(t, b). t # tokens_of b) ops) @ f # rest"
    and "kind f \<noteq> TK_LPAREN" and "tier (kind f) < j"
    and "length ts \<le> i p + n"
  shows "parse_at j n ts p =
           Ok (foldl (\<lambda>acc (t, b). Binary (binop (kind t)) acc (ast_of b)) (ast_of a) ops)
              (p\<lparr>i := i p + length (tokens_of a @ concat (map (\<lambda>(t, b). t # tokens_of b) ops))\<rparr>)"
  using assms by (rule parse_chain)

theorem same_tier_chain_witness:
  "term' 6 [num 10, tk TK_MINUS ''-'', num 3, tk TK_MINUS ''-'', num 2, tk TK_EOF []]
     \<lparr>i = 0, errors = []\<rparr> =
     Ok (Binary B_MINUS
          (Binary B_MINUS (Num (OfLiteral (NumberLit 10))) (Num (OfLiteral (NumberLit 3))))
          (Num (OfLiteral (NumberLit 2))))
        \<lparr>i = 5, errors = []\<rparr> \<and>
   denote (Binary B_MINUS
          (Binary B_MINUS (Num (OfLiteral (NumberLit 10))) (Num (OfLiteral (NumberLit 3))))
          (Num (OfLiteral (NumberLit 2)))) = Some 5 \<and>
   denote (Binary B_MINUS (Num (OfLiteral (NumberLit 10)))
          (Binary B_MINUS (Num (OfLiteral (NumberLit 3))) (Num (OfLiteral (NumberLit 2))))) =
     Some 9"
  using
    same_tier_chain[of 5 "CNum (num 10)"
      "[(tk TK_MINUS ''-'', CNum (num 3)), (tk TK_MINUS ''-'', CNum (num 2))]"
      "\<lparr>i = 0, errors = []\<rparr>"
      "[num 10, tk TK_MINUS ''-'', num 3, tk TK_MINUS ''-'', num 2, tk TK_EOF []]"
      "tk TK_EOF []" "[]" 6]
  by (simp add: tk_def num_def literal_or_lexeme_def parse_at_def)

subsection \<open>Errors of successive declarations\<close>
















subsection \<open>The tokens behind the index decide\<close>

lemma same_refl: "same r r"
  by (simp add: same_def)

lemma same_bind:
  assumes "same r r'" and "sound ts s1 p r"
    and "\<And>v q. i p + s1 \<le> i q \<Longrightarrow> same (f v q) (f' v q)"
  shows "same (bind r f) (bind r' f')"
proof (cases r)
  case (Ok v q)
  with assms(2) have "i p + s1 \<le> i q" by simp
  from assms(3)[OF this] assms(1) Ok show ?thesis by (simp add: same_def)
qed (use assms(1) in \<open>simp_all add: same_def\<close>)

lemma same_match:
  assumes ag: "agree a ts ts'" and a: "a \<le> i p" and ks: "ks \<noteq> []"
    and t: "i p < length ts \<Longrightarrow> kind (ts ! i p) \<noteq> TK_EOF \<Longrightarrow> kind (ts ! i p) \<in> set ks \<Longrightarrow>
         same (f True (p\<lparr>i := i p + 1\<rparr>)) (f' True (p\<lparr>i := i p + 1\<rparr>))"
    and e: "i p < length ts \<Longrightarrow> same (f False p) (f' False p)"
  shows "same (bind (match ts ks p) f) (bind (match ts' ks p) f')"
proof (cases "i p < length ts")
  case True
  with ag a have "i p < length ts'" "ts' ! i p = ts ! i p" by (simp_all add: agree_def)
  with True t e show ?thesis by (simp add: match_in)
next
  case False
  with ag have "length ts \<le> i p" "length ts' \<le> i p" by (simp_all add: agree_def)
  with ks show ?thesis by (simp add: match_out same_def)
qed

lemma same_previous:
  assumes ag: "agree a ts ts'" and a: "a < i p" "i p \<le> length ts"
    and f: "same (f (ts ! (i p - 1)) p) (f' (ts ! (i p - 1)) p)"
  shows "same (bind (previous ts p) f) (bind (previous ts' p) f')"
proof -
  from ag a have "i p \<le> length ts'" "ts' ! (i p - 1) = ts ! (i p - 1)" "0 < i p"
    by (simp_all add: agree_def)
  with a f show ?thesis by (simp add: previous_in)
qed

lemma same_consume:
  assumes ag: "agree a ts ts'" and a: "a \<le> i p"
    and t: "i p < length ts \<Longrightarrow> kind (ts ! i p) = k \<Longrightarrow> kind (ts ! i p) \<noteq> TK_EOF \<Longrightarrow>
         same (f (ts ! i p) (p\<lparr>i := i p + 1\<rparr>)) (f' (ts ! i p) (p\<lparr>i := i p + 1\<rparr>))"
  shows "same (bind (consume ts k msg p) f) (bind (consume ts' k msg p) f')"
proof (cases "i p < length ts")
  case True
  with ag a have "i p < length ts'" "ts' ! i p = ts ! i p" by (simp_all add: agree_def)
  with True t show ?thesis by (simp add: consume_in same_def)
next
  case False
  with ag have "length ts \<le> i p" "length ts' \<le> i p" by (simp_all add: agree_def)
  then show ?thesis by (simp add: consume_out same_def)
qed

lemma same_check:
  assumes ag: "agree a ts ts'" and a: "a \<le> i p"
    and t: "i p < length ts \<Longrightarrow>
         same (f (kind (ts ! i p) \<noteq> TK_EOF \<and> kind (ts ! i p) = k) p)
              (f' (kind (ts ! i p) \<noteq> TK_EOF \<and> kind (ts ! i p) = k) p)"
  shows "same (bind (check ts k p) f) (bind (check ts' k p) f')"
proof (cases "i p < length ts")
  case True
  with ag a have "i p < length ts'" "ts' ! i p = ts ! i p" by (simp_all add: agree_def)
  with True t show ?thesis by (simp add: check_in)
next
  case False
  with ag have "length ts \<le> i p" "length ts' \<le> i p" by (simp_all add: agree_def)
  then show ?thesis by (simp add: check_out same_def)
qed

lemma same_current:
  assumes ag: "agree a ts ts'" and a: "a \<le> i p"
    and t: "i p < length ts \<Longrightarrow> same (f (ts ! i p) p) (f' (ts ! i p) p)"
  shows "same (bind (current ts p) f) (bind (current ts' p) f')"
proof (cases "i p < length ts")
  case True
  with ag a have "i p < length ts'" "ts' ! i p = ts ! i p" by (simp_all add: agree_def)
  with True t show ?thesis by (simp add: current_in)
next
  case False
  with ag have "length ts \<le> i p" "length ts' \<le> i p" by (simp_all add: agree_def)
  then show ?thesis by (simp add: current_out same_def)
qed

lemma same_if:
  "(c \<Longrightarrow> same a a') \<Longrightarrow> (\<not> c \<Longrightarrow> same b b') \<Longrightarrow>
   same (if c then a else b) (if c then a' else b')"
  by simp

lemma same_fuel:
  assumes "\<And>n'. n = Suc n' \<Longrightarrow> same (f n') (f' n')"
  shows "same (case n of 0 \<Rightarrow> OutOfFuel | Suc k \<Rightarrow> f k) (case n of 0 \<Rightarrow> OutOfFuel | Suc k \<Rightarrow> f' k)"
  using assms by (cases n) (simp_all add: same_def)

lemma same_bind_if:
  "(c \<Longrightarrow> same (bind a f) (bind a' f')) \<Longrightarrow> (\<not> c \<Longrightarrow> same (bind b f) (bind b' f')) \<Longrightarrow>
   same (bind (if c then a else b) f) (bind (if c then a' else b') f')"
  by simp

lemma same_bind_Ok: "same (f v p) (f' v p) \<Longrightarrow> same (bind (Ok v p) f) (bind (Ok v p) f')"
  by simp

lemmas same_intros = same_if same_fuel same_bind_if same_bind_Ok same_refl

lemma exprs_sound:
  assumes "length ts \<le> i p + m"
  shows "sound ts 1 p (expression m ts p)" "sound ts 1 p (logicAnd m ts p)"
    "sound ts 1 p (equality m ts p)" "sound ts 1 p (comparison m ts p)"
    "sound ts 1 p (term' m ts p)" "sound ts 1 p (factor m ts p)"
    "sound ts 1 p (unary m ts p)" "sound ts 1 p (primary m ts p)"
    "sound ts 1 p (arguments m ts args p)"
  using expr_sound[of m] assms unfolding expr_sound_def by blast+

lemma expr_frame:
  assumes ag: "agree a ts ts'"
  shows "expr_frame a ts ts' n"
proof (induction n rule: less_induct)
  case (less n)
  note prim = same_match[OF ag] same_previous[OF ag] same_consume[OF ag] same_check[OF ag]
    same_current[OF ag]
  have expression': "same (expression m ts p) (expression m ts' p)"
    and logicAnd': "same (logicAnd m ts p) (logicAnd m ts' p)"
    and equality': "same (equality m ts p) (equality m ts' p)"
    and comparison': "same (comparison m ts p) (comparison m ts' p)"
    and term'': "same (term' m ts p) (term' m ts' p)"
    and factor': "same (factor m ts p) (factor m ts' p)"
    and unary': "same (unary m ts p) (unary m ts' p)"
    and logicOr_loop': "same (logicOr_loop m ts e p) (logicOr_loop m ts' e p)"
    and logicAnd_loop': "same (logicAnd_loop m ts e p) (logicAnd_loop m ts' e p)"
    and equality_loop': "same (equality_loop m ts e p) (equality_loop m ts' e p)"
    and comparison_loop': "same (comparison_loop m ts e p) (comparison_loop m ts' e p)"
    and term_loop': "same (term_loop m ts e p) (term_loop m ts' e p)"
    and factor_loop': "same (factor_loop m ts e p) (factor_loop m ts' e p)"
    and call_loop': "same (call_loop m ts e p) (call_loop m ts' e p)"
    and arguments': "same (arguments m ts args p) (arguments m ts' args p)"
    if "m < n" "a \<le> i p" "length ts \<le> i p + m" for m p e args
    using less.IH[OF that(1)] that(2,3) unfolding expr_frame_def by blast+
  have primary: "same (primary n ts p) (primary n ts' p)"
    if "a \<le> i p" "length ts \<le> i p + n" for p
    unfolding primary.simps[of n ts p] primary.simps[of n ts' p]
    by (use that in \<open>intro prim same_intros same_bind[OF expression' exprs_sound(1)]; simp\<close>)
  have call_loop: "same (call_loop n ts e p) (call_loop n ts' e p)"
    if "a \<le> i p" "length ts \<le> i p + n" for p e
    unfolding call_loop.simps[of n ts e p] call_loop.simps[of n ts' e p]
    by (use that in \<open>intro prim same_intros same_bind[OF arguments' exprs_sound(9)] call_loop';
          simp\<close>)
  have call: "same (call n ts p) (call n ts' p)" if "a \<le> i p" "length ts \<le> i p + n" for p
    unfolding call.simps[of n ts p] call.simps[of n ts' p]
    by (use that in \<open>intro same_bind[OF primary exprs_sound(8)] call_loop; simp\<close>)
  have unary: "same (unary n ts p) (unary n ts' p)" if "a \<le> i p" "length ts \<le> i p + n" for p
    unfolding unary.simps[of n ts p] unary.simps[of n ts' p]
    by (use that in \<open>intro prim same_intros same_bind[OF unary' exprs_sound(7)] call; simp\<close>)
  have factor_loop: "same (factor_loop n ts e p) (factor_loop n ts' e p)"
    if "a \<le> i p" "length ts \<le> i p + n" for p e
    unfolding factor_loop.simps[of n ts e p] factor_loop.simps[of n ts' e p]
    by (use that in \<open>intro prim same_intros same_bind[OF unary' exprs_sound(7)] factor_loop';
          simp\<close>)
  have factor: "same (factor n ts p) (factor n ts' p)" if "a \<le> i p" "length ts \<le> i p + n" for p
    unfolding factor.simps[of n ts p] factor.simps[of n ts' p]
    by (use that in \<open>intro same_bind[OF unary exprs_sound(7)] factor_loop; simp\<close>)
  have term_loop: "same (term_loop n ts e p) (term_loop n ts' e p)"
    if "a \<le> i p" "length ts \<le> i p + n" for p e
    unfolding term_loop.simps[of n ts e p] term_loop.simps[of n ts' e p]
    by (use that in \<open>intro prim same_intros same_bind[OF factor' exprs_sound(6)] term_loop';
          simp\<close>)
  have term_n: "same (term' n ts p) (term' n ts' p)" if "a \<le> i p" "length ts \<le> i p + n" for p
    unfolding term'.simps[of n ts p] term'.simps[of n ts' p]
    by (use that in \<open>intro same_bind[OF factor exprs_sound(6)] term_loop; simp\<close>)
  have comparison_loop: "same (comparison_loop n ts e p) (comparison_loop n ts' e p)"
    if "a \<le> i p" "length ts \<le> i p + n" for p e
    unfolding comparison_loop.simps[of n ts e p] comparison_loop.simps[of n ts' e p]
    by (use that in \<open>intro prim same_intros same_bind[OF term'' exprs_sound(5)] comparison_loop';
          simp\<close>)
  have comparison: "same (comparison n ts p) (comparison n ts' p)"
    if "a \<le> i p" "length ts \<le> i p + n" for p
    unfolding comparison.simps[of n ts p] comparison.simps[of n ts' p]
    by (use that in \<open>intro same_bind[OF term_n exprs_sound(5)] comparison_loop; simp\<close>)
  have equality_loop: "same (equality_loop n ts e p) (equality_loop n ts' e p)"
    if "a \<le> i p" "length ts \<le> i p + n" for p e
    unfolding equality_loop.simps[of n ts e p] equality_loop.simps[of n ts' e p]
    by (use that in \<open>intro prim same_intros same_bind[OF comparison' exprs_sound(4)]
          equality_loop'; simp\<close>)
  have equality: "same (equality n ts p) (equality n ts' p)"
    if "a \<le> i p" "length ts \<le> i p + n" for p
    unfolding equality.simps[of n ts p] equality.simps[of n ts' p]
    by (use that in \<open>intro same_bind[OF comparison exprs_sound(4)] equality_loop; simp\<close>)
  have logicAnd_loop: "same (logicAnd_loop n ts e p) (logicAnd_loop n ts' e p)"
    if "a \<le> i p" "length ts \<le> i p + n" for p e
    unfolding logicAnd_loop.simps[of n ts e p] logicAnd_loop.simps[of n ts' e p]
    by (use that in \<open>intro prim same_intros same_bind[OF equality' exprs_sound(3)]
          logicAnd_loop'; simp\<close>)
  have logicAnd: "same (logicAnd n ts p) (logicAnd n ts' p)"
    if "a \<le> i p" "length ts \<le> i p + n" for p
    unfolding logicAnd.simps[of n ts p] logicAnd.simps[of n ts' p]
    by (use that in \<open>intro same_bind[OF equality exprs_sound(3)] logicAnd_loop; simp\<close>)
  have logicOr_loop: "same (logicOr_loop n ts e p) (logicOr_loop n ts' e p)"
    if "a \<le> i p" "length ts \<le> i p + n" for p e
    unfolding logicOr_loop.simps[of n ts e p] logicOr_loop.simps[of n ts' e p]
    by (use that in \<open>intro prim same_intros same_bind[OF logicAnd' exprs_sound(2)]
          logicOr_loop'; simp\<close>)
  have logicOr: "same (logicOr n ts p) (logicOr n ts' p)"
    if "a \<le> i p" "length ts \<le> i p + n" for p
    unfolding logicOr.simps[of n ts p] logicOr.simps[of n ts' p]
    by (use that in \<open>intro same_bind[OF logicAnd exprs_sound(2)] logicOr_loop; simp\<close>)
  have expression: "same (expression n ts p) (expression n ts' p)"
    if "a \<le> i p" "length ts \<le> i p + n" for p
    unfolding expression.simps[of n ts p] expression.simps[of n ts' p]
    by (rule logicOr[OF that])
  have arguments: "same (arguments n ts args p) (arguments n ts' args p)"
    if "a \<le> i p" "length ts \<le> i p + n" for p args
    unfolding arguments.simps[of n ts args p] arguments.simps[of n ts' args p]
    by (use that in \<open>intro prim same_intros same_bind[OF expression exprs_sound(1)] arguments';
          simp\<close>)
  show ?case
    unfolding expr_frame_def
    using primary call_loop call unary factor_loop factor term_loop term_n comparison_loop
      comparison equality_loop equality logicAnd_loop logicAnd logicOr_loop logicOr expression
      arguments
    by simp
qed

lemma unary_frame:
  assumes "agree a ts ts'" "a \<le> i p" "length ts \<le> i p + n"
  shows "unary n ts' p = unary n ts p"
  using expr_frame[OF assms(1), of n] assms(2,3) unfolding expr_frame_def same_def by blast

subsection \<open>Prefix operators\<close>

lemma unary_prefix:
  assumes "i p < length ts"
    and "kind (ts ! i p) = TK_NOT \<or> kind (ts ! i p) = TK_MINUS \<or> kind (ts ! i p) = TK_BANG"
  shows "unary (Suc n) ts p =
           bind (unary n ts (p\<lparr>i := i p + 1\<rparr>))
             (\<lambda>right q. Ok (Unary (if kind (ts ! i p) = TK_MINUS then U_MINUS else U_NOT) right) q)"
  using assms by (auto simp: unary.simps[of "Suc n" ts p] match_in previous_in)

lemma unary_prefix_pair:
  assumes "i p < length ts" and "length ts \<le> i p + Suc n"
    and "kind (ts ! i p) = TK_NOT \<or> kind (ts ! i p) = TK_MINUS \<or> kind (ts ! i p) = TK_BANG"
    and "kind (ts' ! i p) = TK_NOT \<or> kind (ts' ! i p) = TK_MINUS \<or> kind (ts' ! i p) = TK_BANG"
    and "length ts' = length ts" and "\<forall>j>i p. ts' ! j = ts ! j"
  shows "unary (Suc n) ts p =
           bind (unary n ts (p\<lparr>i := i p + 1\<rparr>))
             (\<lambda>right q. Ok (Unary (if kind (ts ! i p) = TK_MINUS then U_MINUS else U_NOT) right) q)"
    and "unary (Suc n) ts' p =
           bind (unary n ts (p\<lparr>i := i p + 1\<rparr>))
             (\<lambda>right q. Ok (Unary (if kind (ts' ! i p) = TK_MINUS then U_MINUS else U_NOT) right) q)"
proof -
  let ?q = "p\<lparr>i := i p + 1\<rparr>"
  show "unary (Suc n) ts p =
           bind (unary n ts ?q)
             (\<lambda>right q. Ok (Unary (if kind (ts ! i p) = TK_MINUS then U_MINUS else U_NOT) right) q)"
    using assms(1,3) by (rule unary_prefix)
  have ag: "agree (i p + 1) ts ts'" using assms(5,6) by (simp add: agree_def)
  have "unary n ts' ?q = unary n ts ?q"
    using ag assms(2) by (intro unary_frame[where a = "i p + 1"]) simp_all
  moreover have "unary (Suc n) ts' p =
           bind (unary n ts' ?q)
             (\<lambda>right q. Ok (Unary (if kind (ts' ! i p) = TK_MINUS then U_MINUS else U_NOT) right) q)"
    using assms(1,4,5) by (intro unary_prefix) simp_all
  ultimately show "unary (Suc n) ts' p =
           bind (unary n ts ?q)
             (\<lambda>right q. Ok (Unary (if kind (ts' ! i p) = TK_MINUS then U_MINUS else U_NOT) right) q)"
    by simp
qed

lemma sample_prefix:
  "unary 3 [tk TK_BANG ''!'', tk TK_MINUS ''-'', tk TK_IDENT ''x'', tk TK_EOF []]
     \<lparr>i = 1, errors = []\<rparr> =
     Ok (Unary U_MINUS (Ident ''x'')) \<lparr>i = 3, errors = []\<rparr>"
  by code_simp

text \<open>
  Claim C10. A prefix operator token (\<^verbatim>\<open>!\<close>, \<^verbatim>\<open>not\<close> or \<^verbatim>\<open>-\<close>) at the current index is consumed,
  its operand is parsed by \<^verbatim>\<open>unary\<close> itself, and the result is the \<open>Unary\<close> node over the
  operand whose operator is \<open>MINUS\<close> for \<^verbatim>\<open>-\<close> and \<open>NOT\<close> for both \<^verbatim>\<open>!\<close> and \<^verbatim>\<open>not\<close>. Two token
  arrays that differ in nothing behind the operator token have the same operand run: its
  outcome does not depend on the operator token, so the same expression written with
  \<^verbatim>\<open>!\<close> and with \<^verbatim>\<open>not\<close> gives the same node (or the same failure of the operand), and
  nested prefix operators nest to the right.
\<close>

theorem unary_operators:
  assumes "i p < length ts" and "length ts \<le> i p + Suc n"
    and "kind (ts ! i p) = TK_NOT \<or> kind (ts ! i p) = TK_MINUS \<or> kind (ts ! i p) = TK_BANG"
    and "kind (ts' ! i p) = TK_NOT \<or> kind (ts' ! i p) = TK_MINUS \<or> kind (ts' ! i p) = TK_BANG"
    and "length ts' = length ts" and "\<forall>j>i p. ts' ! j = ts ! j"
  shows "unary (Suc n) ts p =
           bind (unary n ts (p\<lparr>i := i p + 1\<rparr>))
             (\<lambda>right q.
                Ok (Unary (if kind (ts ! i p) = TK_MINUS then U_MINUS else U_NOT) right) q) \<and>
         unary (Suc n) ts' p =
           bind (unary n ts (p\<lparr>i := i p + 1\<rparr>))
             (\<lambda>right q.
                Ok (Unary (if kind (ts' ! i p) = TK_MINUS then U_MINUS else U_NOT) right) q)"
  using unary_prefix_pair[OF assms] by simp

theorem unary_operators_witness:
  "unary 4 [tk TK_BANG ''!'', tk TK_MINUS ''-'', tk TK_IDENT ''x'', tk TK_EOF []]
     \<lparr>i = 0, errors = []\<rparr> =
     Ok (Unary U_NOT (Unary U_MINUS (Ident ''x''))) \<lparr>i = 3, errors = []\<rparr> \<and>
   unary 4 [tk TK_NOT ''not'', tk TK_MINUS ''-'', tk TK_IDENT ''x'', tk TK_EOF []]
     \<lparr>i = 0, errors = []\<rparr> =
     Ok (Unary U_NOT (Unary U_MINUS (Ident ''x''))) \<lparr>i = 3, errors = []\<rparr>"
  using
    unary_operators[of "\<lparr>i = 0, errors = []\<rparr>"
      "[tk TK_BANG ''!'', tk TK_MINUS ''-'', tk TK_IDENT ''x'', tk TK_EOF []]" 3
      "[tk TK_NOT ''not'', tk TK_MINUS ''-'', tk TK_IDENT ''x'', tk TK_EOF []]"]
    sample_prefix
  by (simp add: tk_def nth_Cons')

end
